theory Spec2Isabelle
  imports Main
begin

section \<open>The LRU cache (lru\_cache.c)\<close>

text \<open>
  A cache is an array of \<open>capacity\<close> buckets, each a singly linked chain of \<open>info\<close>
  entries, and a doubly linked list \<open>index\<close> that keeps the order of use, least recently
  used first. An entry holds a pointer to its node of the order list. Pointers to nodes
  are addresses (natural numbers), \<open>None\<close> is the null pointer. A chain is the list of its
  entries from the head; the \<open>tail\<close> and \<open>size\<close> fields of a chain are only ever written,
  so they are left out. The order list is the list of its nodes from the head, and its
  \<open>size\<close> field is the length of that list.

  Keys and values are C strings, compared with \<open>strcmp\<close>, so equality of strings models
  \<open>compare_function\<close>. The hash function (\<open>hash_string\<close> of utils.c, whose body is not
  part of the sources) is a field of the cache, as in the C struct, and left arbitrary.

  Every operation returns an \<open>option\<close>: \<open>None\<close> stands for an execution with undefined
  behaviour (a division by zero, an index outside an array, a null or dangling pointer
  that is dereferenced).
\<close>

record info =
  key :: string
  val :: string
  pointer_to_node :: "nat option"

record dll_node =
  addr :: nat
  data :: info

record lru_cache =
  buckets :: "info list list"
  size_cache :: nat
  capacity :: nat
  hash_function :: "string \<Rightarrow> nat"
  index :: "dll_node list"

text \<open>Unsigned 32-bit counters: \<open>++\<close> and \<open>--\<close> wrap around.\<close>

definition u32_inc :: "nat \<Rightarrow> nat" where
  "u32_inc n = (if n = 4294967295 then 0 else n + 1)"

definition u32_dec :: "nat \<Rightarrow> nat" where
  "u32_dec n = (if n = 0 then 4294967295 else n - 1)"

text \<open>\<open>malloc\<close> for a node of the order list: an address that no live node has.\<close>

definition malloc_node :: "dll_node list \<Rightarrow> nat" where
  "malloc_node l = Suc (fold max (map addr l) 0)"

text \<open>Following a pointer into the order list: the node that lives at address \<open>p\<close>.\<close>

definition deref :: "dll_node list \<Rightarrow> nat \<Rightarrow> dll_node option" where
  "deref l p = find (\<lambda>n. addr n = p) l"

definition init_lru_cache :: "(string \<Rightarrow> nat) \<Rightarrow> nat \<Rightarrow> lru_cache" where
  "init_lru_cache hash_string cache_capacity =
     \<lparr>buckets = replicate cache_capacity [], size_cache = 0, capacity = cache_capacity,
      hash_function = hash_string, index = []\<rparr>"

definition lru_cache_is_full :: "lru_cache \<Rightarrow> bool" where
  "lru_cache_is_full cache \<longleftrightarrow> size_cache cache \<ge> capacity cache"

text \<open>
  \<open>dll_add_nth_node\<close> copies \<open>new_data\<close> into a fresh node and links it before position
  \<open>n\<close>, or after the last node when \<open>n\<close> is not below the size.
\<close>

definition dll_add_nth_node :: "dll_node list \<Rightarrow> nat \<Rightarrow> info \<Rightarrow> dll_node list" where
  "dll_add_nth_node l n new_data =
     (let new_node = \<lparr>addr = malloc_node l, data = new_data\<rparr>
      in if n \<ge> length l then l @ [new_node] else take n l @ [new_node] @ drop n l)"

text \<open>
  \<open>dll_remove_nth_node\<close> returns \<open>NULL\<close> on an empty list; a position past the end means
  the last node.
\<close>

definition dll_remove_nth_node :: "dll_node list \<Rightarrow> nat \<Rightarrow> dll_node option \<times> dll_node list" where
  "dll_remove_nth_node l n =
     (if l = [] then (None, l)
      else let m = (if n \<ge> length l then length l - 1 else n)
           in (Some (l ! m), take m l @ drop (Suc m) l))"

text \<open>\<open>dll_remove_node\<close> unlinks the node at address \<open>p\<close>, which the caller has in hand.\<close>

definition dll_remove_node :: "dll_node list \<Rightarrow> nat \<Rightarrow> dll_node list" where
  "dll_remove_node l p = filter (\<lambda>n. addr n \<noteq> p) l"

text \<open>
  The scan of a chain for a key, as in \<open>lru_cache_get\<close>, \<open>lru_cache_remove\<close> and the
  eviction of \<open>lru_cache_put\<close>: the entries before the first one with the key (the last of
  them is \<open>prev\<close>), that entry, and the entries after it.
\<close>

fun scan_chain :: "string \<Rightarrow> info list \<Rightarrow> (info list \<times> info \<times> info list) option" where
  "scan_chain k [] = None"
| "scan_chain k (n # rest) =
     (if key n = k then Some ([], n, rest)
      else (case scan_chain k rest of
              None \<Rightarrow> None
            | Some (pre, m, post) \<Rightarrow> Some (n # pre, m, post)))"

text \<open>
  \<open>lru_cache_get\<close>: the value of the first entry with the key, or \<open>NULL\<close>. On a hit whose
  node pointer is not null and leads to a node with the same key, the node is moved to
  the tail of the order list and the entry to the front of its chain
  (\<open>ll_move_to_front\<close>).
\<close>

definition lru_cache_get :: "lru_cache \<Rightarrow> string \<Rightarrow> (string option \<times> lru_cache) option" where
  "lru_cache_get cache k =
     (if capacity cache = 0 then None
      else let i = hash_function cache k mod capacity cache in
        if i \<ge> length (buckets cache) then None
        else (case scan_chain k (buckets cache ! i) of
            None \<Rightarrow> Some (None, cache)
          | Some (pre, node, post) \<Rightarrow>
              (case pointer_to_node node of
                 None \<Rightarrow> Some (Some (val node), cache)
               | Some p \<Rightarrow>
                   (case deref (index cache) p of
                      None \<Rightarrow> None
                    | Some dn \<Rightarrow>
                        if key (data dn) = k then
                          (let l1 = dll_remove_node (index cache) p;
                               l2 = dll_add_nth_node l1 (length l1) node;
                               node2 = node\<lparr>pointer_to_node := Some (addr (last l2))\<rparr>
                           in Some (Some (val node),
                                cache\<lparr>buckets := (buckets cache)[i := node2 # pre @ post],
                                      index := l2\<rparr>))
                        else Some (Some (val node), cache)))))"

text \<open>
  The first loop of \<open>lru_cache_put\<close>. Every entry of the chain with the key gets the new
  value and sets \<open>found\<close>; the loop returns from the function at the first such entry
  whose node pointer leads to a node with the same key, after moving that node to the
  tail of the order list (\<open>Promoted\<close>: the new chain and the new order list). Otherwise
  the scan reaches the end of the chain (\<open>Scanned\<close>: the new chain and \<open>found\<close>). The
  pointer is followed without a null check.
\<close>

datatype put_scan_result = Promoted "info list" "dll_node list" | Scanned "info list" bool

fun put_scan :: "dll_node list \<Rightarrow> string \<Rightarrow> string \<Rightarrow> info list \<Rightarrow> put_scan_result option" where
  "put_scan l k v [] = Some (Scanned [] False)"
| "put_scan l k v (node # rest) =
     (if key node = k then
        (case pointer_to_node node of
           None \<Rightarrow> None
         | Some p \<Rightarrow>
             (case deref l p of
                None \<Rightarrow> None
              | Some dn \<Rightarrow>
                  if key (data dn) = k then
                    (let node1 = node\<lparr>val := v\<rparr>;
                         l1 = dll_remove_node l p;
                         l2 = dll_add_nth_node l1 (length l1) node1
                     in Some (Promoted (node1\<lparr>pointer_to_node := Some (addr (last l2))\<rparr> # rest) l2))
                  else
                    (case put_scan l k v rest of
                       None \<Rightarrow> None
                     | Some (Promoted ch l') \<Rightarrow> Some (Promoted (node\<lparr>val := v\<rparr> # ch) l')
                     | Some (Scanned ch found) \<Rightarrow> Some (Scanned (node\<lparr>val := v\<rparr> # ch) True))))
      else
        (case put_scan l k v rest of
           None \<Rightarrow> None
         | Some (Promoted ch l') \<Rightarrow> Some (Promoted (node # ch) l')
         | Some (Scanned ch found) \<Rightarrow> Some (Scanned (node # ch) found)))"

text \<open>
  The eviction of \<open>lru_cache_put\<close>: when the size has reached the capacity, the head of
  the order list is taken out, the first entry with its key is unlinked from the chain
  that the key hashes to, and the size goes down by one. The result is the evicted key,
  if any, and the cache. The chain index is an \<open>int\<close> in the C code, so a value of
  \<open>2^31\<close> or more is an index outside the array.
\<close>

definition evict_if_full :: "lru_cache \<Rightarrow> (string option \<times> lru_cache) option" where
  "evict_if_full cache =
     (if size_cache cache \<ge> capacity cache then
        (case dll_remove_nth_node (index cache) 0 of
           (None, l) \<Rightarrow> Some (None, cache)
         | (Some evicted_node, l) \<Rightarrow>
             (let evicted_index = hash_function cache (key (data evicted_node)) mod capacity cache in
              if evicted_index \<ge> 2147483648 \<or> evicted_index \<ge> length (buckets cache) then None
              else
                (let ch = buckets cache ! evicted_index;
                     ch' = (case scan_chain (key (data evicted_node)) ch of
                              None \<Rightarrow> ch
                            | Some (pre, node, post) \<Rightarrow> pre @ post)
                 in Some (Some (key (data evicted_node)),
                      cache\<lparr>buckets := (buckets cache)[evicted_index := ch'], index := l,
                            size_cache := u32_dec (size_cache cache)\<rparr>))))
      else Some (None, cache))"

text \<open>
  The last part of \<open>lru_cache_put\<close>, for a key that was not found: a new entry at the
  front of its chain (\<open>ll_add_to_front\<close>), a copy of it in a new node at the tail of the
  order list, and the entry's pointer set to that node.
\<close>

definition insert_new :: "lru_cache \<Rightarrow> nat \<Rightarrow> string \<Rightarrow> string \<Rightarrow> lru_cache" where
  "insert_new cache i k v =
     (let new_info = \<lparr>key = k, val = v, pointer_to_node = None\<rparr>;
          l = dll_add_nth_node (index cache) (length (index cache)) new_info
      in cache\<lparr>buckets := (buckets cache)[i := new_info\<lparr>pointer_to_node := Some (addr (last l))\<rparr> # buckets cache ! i],
               index := l, size_cache := u32_inc (size_cache cache)\<rparr>)"

text \<open>
  \<open>lru_cache_put\<close> returns the function's \<open>bool\<close>, the key written to \<open>*evicted_key\<close> (if
  any: a caller that passes \<open>NULL\<close> drops it) and the cache. Memory allocation is taken
  to succeed.
\<close>

definition lru_cache_put :: "lru_cache \<Rightarrow> string \<Rightarrow> string \<Rightarrow> (bool \<times> string option \<times> lru_cache) option" where
  "lru_cache_put cache k v =
     (if capacity cache = 0 then None
      else let i = hash_function cache k mod capacity cache in
        if i \<ge> 2147483648 \<or> i \<ge> length (buckets cache) then None
        else (case put_scan (index cache) k v (buckets cache ! i) of
            None \<Rightarrow> None
          | Some (Promoted ch l) \<Rightarrow>
              Some (True, None, cache\<lparr>buckets := (buckets cache)[i := ch], index := l\<rparr>)
          | Some (Scanned ch found) \<Rightarrow>
              (case evict_if_full (cache\<lparr>buckets := (buckets cache)[i := ch]\<rparr>) of
                 None \<Rightarrow> None
               | Some (evicted_key, cache1) \<Rightarrow>
                   if \<not> found then Some (True, evicted_key, insert_new cache1 i k v)
                   else Some (True, evicted_key, cache1))))"

text \<open>
  \<open>lru_cache_remove\<close>: the first entry with the key is unlinked from its chain and its
  node, when the pointer is not null, from the order list; the size goes down by one.
\<close>

definition lru_cache_remove :: "lru_cache \<Rightarrow> string \<Rightarrow> lru_cache option" where
  "lru_cache_remove cache k =
     (if capacity cache = 0 then None
      else let i = hash_function cache k mod capacity cache in
        if i \<ge> length (buckets cache) then None
        else (case scan_chain k (buckets cache ! i) of
            None \<Rightarrow> Some cache
          | Some (pre, node, post) \<Rightarrow>
              (case pointer_to_node node of
                 None \<Rightarrow>
                   Some (cache\<lparr>buckets := (buckets cache)[i := pre @ post],
                               size_cache := u32_dec (size_cache cache)\<rparr>)
               | Some p \<Rightarrow>
                   (case deref (index cache) p of
                      None \<Rightarrow> None
                    | Some dn \<Rightarrow>
                        Some (cache\<lparr>buckets := (buckets cache)[i := pre @ post],
                                    index := dll_remove_node (index cache) p,
                                    size_cache := u32_dec (size_cache cache)\<rparr>)))))"

text \<open>All keys stored in the chains of a cache.\<close>

definition cache_keys :: "lru_cache \<Rightarrow> string set" where
  "cache_keys cache = key ` set (concat (buckets cache))"

text \<open>The order of use of the keys, least recently used first.\<close>

definition lru_order :: "lru_cache \<Rightarrow> string list" where
  "lru_order cache = map (\<lambda>n. key (data n)) (index cache)"

subsection \<open>The invariant of a cache\<close>

text \<open>
  An entry of chain \<open>i\<close> is in order when its key hashes to \<open>i\<close> and its pointer leads to a
  live node of the order list that carries the entry's own key.
\<close>

definition entry_ok :: "lru_cache \<Rightarrow> nat \<Rightarrow> info \<Rightarrow> bool" where
  "entry_ok cache i e \<longleftrightarrow>
     hash_function cache (key e) mod capacity cache = i \<and>
     (case pointer_to_node e of
        None \<Rightarrow> False
      | Some p \<Rightarrow> (case deref (index cache) p of
                    None \<Rightarrow> False
                  | Some dn \<Rightarrow> key (data dn) = key e))"

text \<open>No two nodes of the order list share an address or a key.\<close>

definition index_ok :: "dll_node list \<Rightarrow> bool" where
  "index_ok l \<longleftrightarrow> distinct (map addr l) \<and> distinct (map (\<lambda>n. key (data n)) l)"

text \<open>Every chain holds a key once at most, and each of its entries is in order.\<close>

definition chains_ok :: "lru_cache \<Rightarrow> bool" where
  "chains_ok cache \<longleftrightarrow>
     (\<forall>i < capacity cache. distinct (map key (buckets cache ! i)) \<and>
        (\<forall>e \<in> set (buckets cache ! i). entry_ok cache i e))"

text \<open>Every node of the order list carries the key of an entry of the chain it hashes to.\<close>

definition nodes_ok :: "lru_cache \<Rightarrow> bool" where
  "nodes_ok cache \<longleftrightarrow>
     (\<forall>n \<in> set (index cache).
        key (data n) \<in> key ` set (buckets cache ! (hash_function cache (key (data n)) mod capacity cache)))"

text \<open>
  The invariant: a positive capacity that an \<open>int\<close> can index, one chain per slot, a size
  that counts the nodes and stays within the capacity, and entries and nodes that
  correspond one to one: each entry points to the node with its key, each node has the
  entry with its key, and keys are not repeated on either side.
\<close>

definition cache_inv :: "lru_cache \<Rightarrow> bool" where
  "cache_inv cache \<longleftrightarrow>
     0 < capacity cache \<and> capacity cache \<le> 2147483648 \<and>
     length (buckets cache) = capacity cache \<and>
     size_cache cache = length (index cache) \<and> size_cache cache \<le> capacity cache \<and>
     index_ok (index cache) \<and> chains_ok cache \<and> nodes_ok cache"

text \<open>
  The value stored under a key, read off the chain the key hashes to without touching
  the order of use. It is what the scan of \<open>lru_cache_get\<close> finds.
\<close>

definition cache_lookup :: "lru_cache \<Rightarrow> string \<Rightarrow> string option" where
  "cache_lookup cache k =
     map_of (map (\<lambda>e. (key e, val e)) (buckets cache ! (hash_function cache k mod capacity cache))) k"


text \<open>
  A key is kept for \<open>t\<close> more insertions when it is stored with value \<open>v\<close> and, with at
  most \<open>t\<close> further keys becoming more recently used than it, the cache cannot evict it.
\<close>

definition kept :: "lru_cache \<Rightarrow> string \<Rightarrow> string \<Rightarrow> nat \<Rightarrow> bool" where
  "kept c name v t \<longleftrightarrow>
     cache_lookup c name = Some v \<and>
     (\<exists>pre post. lru_order c = pre @ name # post \<and> length post + t < capacity c)"

text \<open>Sequences of operations on a cache, for the statement of the invariant.\<close>

datatype cache_op = Put string string | Get string | Remove string

fun apply_op :: "lru_cache \<Rightarrow> cache_op \<Rightarrow> lru_cache option" where
  "apply_op c (Put k v) = map_option (\<lambda>(b, ev, c'). c') (lru_cache_put c k v)"
| "apply_op c (Get k) = map_option snd (lru_cache_get c k)"
| "apply_op c (Remove k) = lru_cache_remove c k"

fun run_ops :: "lru_cache \<Rightarrow> cache_op list \<Rightarrow> lru_cache option" where
  "run_ops c [] = Some c"
| "run_ops c (x # xs) = (case apply_op c x of None \<Rightarrow> None | Some c' \<Rightarrow> run_ops c' xs)"

text \<open>The node of the order list that an entry points to.\<close>

definition node_of :: "lru_cache \<Rightarrow> info \<Rightarrow> dll_node" where
  "node_of cache e = the (deref (index cache) (the (pointer_to_node e)))"

text \<open>
  A cache for the examples: two buckets, keys hashed by their length, after \<open>put(a, 1)\<close>
  and \<open>put(bb, 2)\<close>. It is full, and \<open>a\<close> is the least recently used key.
\<close>

definition example_cache :: lru_cache where
  "example_cache =
     \<lparr>buckets = [[\<lparr>key = ''bb'', val = ''2'', pointer_to_node = Some 2\<rparr>],
                [\<lparr>key = ''a'', val = ''1'', pointer_to_node = Some 1\<rparr>]],
      size_cache = 2, capacity = 2, hash_function = length,
      index = [\<lparr>addr = 1, data = \<lparr>key = ''a'', val = ''1'', pointer_to_node = None\<rparr>\<rparr>,
               \<lparr>addr = 2, data = \<lparr>key = ''bb'', val = ''2'', pointer_to_node = None\<rparr>\<rparr>]\<rparr>"

text \<open>A hash function for the example of a cache with more than \<open>2^31\<close> chains.\<close>

definition big_hash :: "string \<Rightarrow> nat" where
  "big_hash k = 3000000000"

section \<open>The server (server.c)\<close>

text \<open>
  A request carries its type, the name of the document and, for an edit, the new
  content. A response carries a log line, a body (absent for a document that was not
  found) and the id of the server that answers, which \<open>struct response\<close> keeps in an \<open>int\<close>.
\<close>

datatype request_type = EDIT_DOCUMENT | GET_DOCUMENT

record request =
  req_type :: request_type
  doc_name :: string
  doc_content :: string

record response =
  server_log :: string
  server_response :: "string option"
  resp_server_id :: int

text \<open>
  The log and body templates (\<open>LOG_HIT\<close>, \<open>MSG_A\<close>, ...) are macros of constants.h, which is
  not part of the sources. They are parameters of the functions that format them: each
  template is given as the text that the \<open>printf\<close> family produces from it for its
  arguments, before any buffer cuts it.
\<close>

record constants =
  MSG_A :: "string \<Rightarrow> string \<Rightarrow> string"
  MSG_B :: "string \<Rightarrow> string"
  MSG_C :: "string \<Rightarrow> string"
  LOG_HIT :: "string \<Rightarrow> string"
  LOG_MISS :: "string \<Rightarrow> string"
  LOG_EVICT :: "string \<Rightarrow> string \<Rightarrow> string"
  LOG_FAULT :: "string \<Rightarrow> string"
  LOG_LAZY_EXEC :: "nat \<Rightarrow> string"

text \<open>
  Modelled from the spec: the templates of constants.h (which is not part of the
  sources), with the wording that the specification gives for the log lines and the
  bodies. Only the examples use them. \<open>decimal\<close> is the text of a number as \<open>%d\<close> prints it.
\<close>

fun decimal :: "nat \<Rightarrow> string" where
  "decimal n =
     (if n < 10 then [''0123456789'' ! n]
      else decimal (n div 10) @ [''0123456789'' ! (n mod 10)])"

declare decimal.simps [simp del]

definition spec_templates :: constants where
  "spec_templates =
     \<lparr>MSG_A = (\<lambda>what name. what @ '' '' @ name),
      MSG_B = (\<lambda>name. ''document '' @ name),
      MSG_C = (\<lambda>name. ''new document '' @ name),
      LOG_HIT = (\<lambda>name. ''cache hit''),
      LOG_MISS = (\<lambda>name. ''cache miss''),
      LOG_EVICT = (\<lambda>name evicted. ''cache miss; evicted '' @ evicted),
      LOG_FAULT = (\<lambda>name. ''document not found''),
      LOG_LAZY_EXEC = (\<lambda>depth. ''queued; depth='' @ decimal depth)\<rparr>"

text \<open>
  Writing a text into a buffer of \<open>n\<close> bytes. \<open>snprintf\<close> cuts the text to \<open>n - 1\<close> characters.
  \<open>sprintf\<close> and \<open>strcpy\<close> write all of it and the final zero byte: a text of \<open>n\<close> characters or
  more goes past the end of the buffer, which is undefined behaviour (\<open>None\<close>).
  \<open>strncpy\<close> stops after \<open>n\<close> bytes, but then leaves the buffer without a final zero
  byte, and \<open>create_response\<close>, which duplicates the buffer as a string, reads past its
  end.
\<close>

definition snprintf :: "nat \<Rightarrow> string \<Rightarrow> string" where
  "snprintf n text = take (n - 1) text"

definition sprintf :: "nat \<Rightarrow> string \<Rightarrow> string option" where
  "sprintf n text = (if length text < n then Some text else None)"

definition strcpy :: "nat \<Rightarrow> string \<Rightarrow> string option" where
  "strcpy n text = (if length text < n then Some text else None)"

definition strncpy :: "nat \<Rightarrow> string \<Rightarrow> string option" where
  "strncpy n text = (if length text < n then Some text else None)"

text \<open>
  \<open>create_response\<close> takes the id of the server, an \<open>unsigned int\<close>, as an \<open>int\<close>: an id of
  \<open>2^31\<close> or more comes out negative.
\<close>

definition int_of_unsigned :: "nat \<Rightarrow> int" where
  "int_of_unsigned n =
     (if n mod 4294967296 < 2147483648 then int (n mod 4294967296)
      else int (n mod 4294967296) - 4294967296)"

definition create_response :: "string \<Rightarrow> string option \<Rightarrow> nat \<Rightarrow> response" where
  "create_response lg resp sid =
     \<lparr>server_log = lg, server_response = resp, resp_server_id = int_of_unsigned sid\<rparr>"

subsection \<open>The task queue\<close>

text \<open>
  The queue is a circular buffer of \<open>max_size\<close> slots. A slot holds a pointer to a copy of
  a request; \<open>None\<close> is a slot that was never written.
\<close>

record queue_t =
  max_size :: nat
  size_q :: nat
  read_idx :: nat
  write_idx :: nat
  buff :: "request option list"

definition q_create :: "nat \<Rightarrow> queue_t" where
  "q_create n = \<lparr>max_size = n, size_q = 0, read_idx = 0, write_idx = 0, buff = replicate n None\<rparr>"

text \<open>
  \<open>q_enqueue\<close> returns 0 and does nothing when the queue is full. A write outside the
  buffer is undefined behaviour (\<open>None\<close>).
\<close>

definition q_enqueue :: "queue_t \<Rightarrow> request \<Rightarrow> (nat \<times> queue_t) option" where
  "q_enqueue q new_data =
     (if size_q q = max_size q then Some (0, q)
      else if write_idx q \<ge> length (buff q) then None
      else Some (1, q\<lparr>buff := (buff q)[write_idx q := Some new_data],
                      size_q := u32_inc (size_q q),
                      write_idx := (write_idx q + 1) mod max_size q\<rparr>))"

definition q_get_size :: "queue_t \<Rightarrow> nat" where
  "q_get_size q = size_q q"

text \<open>
  \<open>q_dequeue\<close> returns \<open>NULL\<close> on an empty queue, and otherwise the pointer in the slot at
  \<open>read_idx\<close>; \<open>None\<close> also stands for the pointer of a slot that was never written or
  lies outside the buffer, which the caller must not follow.
\<close>

definition q_dequeue :: "queue_t \<Rightarrow> request option \<times> queue_t" where
  "q_dequeue q =
     (if size_q q = 0 then (None, q)
      else ((if read_idx q < length (buff q) then buff q ! read_idx q else None),
            q\<lparr>read_idx := (read_idx q + 1) mod max_size q, size_q := u32_dec (size_q q)\<rparr>))"



subsection \<open>Servers\<close>

text \<open>
  A server owns a cache, a local database (a second LRU cache, a thousand times larger)
  and a queue of edits. A replica points to the server it stands for
  (\<open>original_server\<close>, an address in the store of the load balancer). Every function of
  server.c that takes a \<open>server *serv\<close> starts by choosing \<open>s\<close>, the original server of
  \<open>serv\<close> if there is one and \<open>serv\<close> itself otherwise, works on the cache, database and
  queue of \<open>s\<close> only and uses \<open>serv\<close> for nothing but \<open>serv->server_id\<close> in the response.
  The functions below take that id and the server \<open>s\<close>; the load balancer, which holds
  the pointers, chooses \<open>s\<close> when it calls them. The queue of a server is never \<open>NULL\<close>
  (\<open>init_server\<close> creates it).
\<close>

record server =
  cache :: lru_cache
  task_queue :: queue_t
  local_db :: lru_cache
  server_id :: nat
  hash :: nat
  original_server :: "nat option"

text \<open>
  \<open>init_server\<close>: the database has \<open>cache_size * 1000\<close> buckets, computed in 32 bits, and
  the queue 1000 slots. The id and the hash are set by the caller right away.
\<close>

definition init_server :: "(string \<Rightarrow> nat) \<Rightarrow> nat \<Rightarrow> server" where
  "init_server hash_string cache_size =
     \<lparr>cache = init_lru_cache hash_string cache_size,
      task_queue = q_create 1000,
      local_db = init_lru_cache hash_string ((cache_size * 1000) mod 4294967296),
      server_id = 0, hash = 0, original_server = None\<rparr>"

text \<open>
  \<open>server_edit_document\<close>: the document goes into the cache and the database; the log
  (in a buffer of \<open>MAX_LOG_LENGTH = 1000\<close> bytes, written by \<open>snprintf\<close>) tells whether the
  cache held it and whether the cache evicted a key, the body (in a buffer of 4096
  bytes, written by \<open>sprintf\<close>) whether the document is new.
\<close>

definition server_edit_document ::
  "constants \<Rightarrow> nat \<Rightarrow> server \<Rightarrow> string \<Rightarrow> string \<Rightarrow> (response \<times> server) option" where
  "server_edit_document K sid s name content =
     (case lru_cache_get (cache s) name of
        None \<Rightarrow> None
      | Some (None, c1) \<Rightarrow>
          (case lru_cache_get (local_db s) name of
             None \<Rightarrow> None
           | Some (Some doc_in_db, d1) \<Rightarrow>
               (case lru_cache_put c1 name content of
                  None \<Rightarrow> None
                | Some (b1, evicted_content, c2) \<Rightarrow>
                    (case lru_cache_put d1 name content of
                       None \<Rightarrow> None
                     | Some (b2, e2, d2) \<Rightarrow>
                         (case sprintf 4096 (MSG_B K name) of
                            None \<Rightarrow> None
                          | Some full_response_msg \<Rightarrow>
                              Some (create_response
                                      (snprintf 1000
                                         (case evicted_content of
                                            Some ev \<Rightarrow> LOG_EVICT K name ev
                                          | None \<Rightarrow> LOG_MISS K name))
                                      (Some full_response_msg) sid,
                                    s\<lparr>cache := c2, local_db := d2\<rparr>))))
           | Some (None, d1) \<Rightarrow>
               (case lru_cache_put d1 name content of
                  None \<Rightarrow> None
                | Some (b2, e2, d2) \<Rightarrow>
                    (case lru_cache_put c1 name content of
                       None \<Rightarrow> None
                     | Some (b1, evicted_content, c2) \<Rightarrow>
                         (case sprintf 4096 (MSG_C K name) of
                            None \<Rightarrow> None
                          | Some full_response_msg \<Rightarrow>
                              Some (create_response
                                      (snprintf 1000
                                         (case evicted_content of
                                            Some ev \<Rightarrow> LOG_EVICT K name ev
                                          | None \<Rightarrow> LOG_MISS K name))
                                      (Some full_response_msg) sid,
                                    s\<lparr>cache := c2, local_db := d2\<rparr>)))))
      | Some (Some doc_in_cache, c1) \<Rightarrow>
          (case lru_cache_put c1 name content of
             None \<Rightarrow> None
           | Some (b1, evicted_content, c2) \<Rightarrow>
               (case lru_cache_put (local_db s) name content of
                  None \<Rightarrow> None
                | Some (b2, e2, d2) \<Rightarrow>
                    (case sprintf 4096 (MSG_B K name) of
                       None \<Rightarrow> None
                     | Some full_response_msg \<Rightarrow>
                         Some (create_response (snprintf 1000 (LOG_HIT K name))
                                 (Some full_response_msg) sid,
                               s\<lparr>cache := c2, local_db := d2\<rparr>)))))"

text \<open>
  \<open>server_get_document\<close>: from the cache, or else from the database, which also puts the
  document into the cache; a document in neither is a fault with no body. The content
  is copied into a buffer of 4096 bytes, by \<open>strcpy\<close> from the cache and by \<open>strncpy\<close> from
  the database.
\<close>

definition server_get_document ::
  "constants \<Rightarrow> nat \<Rightarrow> server \<Rightarrow> string \<Rightarrow> (response \<times> server) option" where
  "server_get_document K sid s name =
     (case lru_cache_get (cache s) name of
        None \<Rightarrow> None
      | Some (Some document, c1) \<Rightarrow>
          (case strcpy 4096 document of
             None \<Rightarrow> None
           | Some full_response_msg \<Rightarrow>
               Some (create_response (snprintf 1000 (LOG_HIT K name)) (Some full_response_msg) sid,
                     s\<lparr>cache := c1\<rparr>))
      | Some (None, c1) \<Rightarrow>
          (case lru_cache_get (local_db s) name of
             None \<Rightarrow> None
           | Some (None, d1) \<Rightarrow>
               Some (create_response (snprintf 1000 (LOG_FAULT K name)) None sid,
                     s\<lparr>cache := c1, local_db := d1\<rparr>)
           | Some (Some reply, d1) \<Rightarrow>
               (case lru_cache_put c1 name reply of
                  None \<Rightarrow> None
                | Some (b1, evicted_content, c2) \<Rightarrow>
                    (case strncpy 4096 reply of
                       None \<Rightarrow> None
                     | Some full_response_msg \<Rightarrow>
                         Some (create_response
                                 (snprintf 1000
                                    (case evicted_content of
                                       Some ev \<Rightarrow> LOG_EVICT K name ev
                                     | None \<Rightarrow> LOG_MISS K name))
                                 (Some full_response_msg) sid,
                               s\<lparr>cache := c2, local_db := d1\<rparr>)))))"

lemma server_edit_document_queue:
  "server_edit_document K sid s name content = Some (r, s') \<Longrightarrow> task_queue s' = task_queue s"
  by (auto simp: server_edit_document_def split: option.splits prod.splits)

text \<open>
  \<open>execute_edit_tasks_for_document\<close>: while the queue is not empty, the oldest request is
  taken out and applied, and its response is printed (\<open>PRINT_RESPONSE\<close>). The result is
  the list of the printed responses, first printed first, and the server.
\<close>

function execute_edit_tasks_for_document ::
  "constants \<Rightarrow> nat \<Rightarrow> server \<Rightarrow> (response list \<times> server) option" where
  "execute_edit_tasks_for_document K sid s =
     (if size_q (task_queue s) = 0 then Some ([], s)
      else (case q_dequeue (task_queue s) of
              (None, q) \<Rightarrow> None
            | (Some req, q) \<Rightarrow>
                (case server_edit_document K sid (s\<lparr>task_queue := q\<rparr>) (doc_name req) (doc_content req) of
                   None \<Rightarrow> None
                 | Some (resp, s1) \<Rightarrow>
                     (case execute_edit_tasks_for_document K sid s1 of
                        None \<Rightarrow> None
                      | Some (printed, s2) \<Rightarrow> Some (resp # printed, s2)))))"
  by pat_completeness auto
termination
  apply (relation "measure (\<lambda>(K, sid, s). size_q (task_queue s))")
   apply simp
  apply (auto simp: q_dequeue_def u32_dec_def dest!: server_edit_document_queue split: if_splits)
  done

declare execute_edit_tasks_for_document.simps [simp del]

text \<open>
  \<open>server_handle_request\<close>: an edit is put into the queue (and silently dropped when the
  queue is full) and answered with the depth of the queue, log and body written by
  \<open>snprintf\<close> into buffers of 1000 and 4096 bytes; any other request first
  executes the queued edits and then reads the document. The result is the list of the
  responses printed on the way, the response returned, and the server.
\<close>

definition server_handle_request ::
  "constants \<Rightarrow> nat \<Rightarrow> server \<Rightarrow> request \<Rightarrow> (response list \<times> response \<times> server) option" where
  "server_handle_request K sid s req =
     (if req_type req = EDIT_DOCUMENT then
        (case q_enqueue (task_queue s) req of
           None \<Rightarrow> None
         | Some (r, q) \<Rightarrow>
             Some ([], create_response (snprintf 1000 (LOG_LAZY_EXEC K (q_get_size q)))
                         (Some (snprintf 4096 (MSG_A K ''EDIT'' (doc_name req)))) sid,
                   s\<lparr>task_queue := q\<rparr>))
      else
        (case execute_edit_tasks_for_document K sid s of
           None \<Rightarrow> None
         | Some (printed, s1) \<Rightarrow>
             (case server_get_document K sid s1 (doc_name req) of
                None \<Rightarrow> None
              | Some (res, s2) \<Rightarrow> Some (printed, res, s2))))"








definition full_server :: server where
  "full_server =
     (init_server length 1)
       \<lparr>task_queue :=
          \<lparr>max_size = 1000, size_q = 1000, read_idx = 0, write_idx = 0,
           buff = replicate 1000
                    (Some \<lparr>req_type = EDIT_DOCUMENT, doc_name = ''doc'', doc_content = ''hi''\<rparr>)\<rparr>\<rparr>"







section \<open>The load balancer (load\_balancer.c)\<close>

text \<open>
  The balancer keeps the hash ring in the array \<open>servers\<close> of pointers to servers, of which
  the first \<open>nr_servers\<close> are in use. The struct is declared in load\_balancer.h, which is
  not part of the sources; the record has the fields that load\_balancer.c uses (the two
  function pointers that \<open>init_load_balancer\<close> stores are never called: the code calls
  \<open>hash_string\<close> and \<open>hash_uint\<close> directly). These two hash functions (utils.c, not part
  of the sources) are parameters of every function that needs them, and so are the
  templates \<open>K\<close> of the messages that the servers format. \<open>MAX_SERVERS\<close>, a macro that the
  sources do not define, is a parameter of \<open>init_load_balancer\<close>.

  Servers live in a store \<open>mem\<close>: the address of a server is its position in the list,
  and a freed server leaves \<open>None\<close> behind. The list \<open>servers\<close> holds the slots of the array
  that have been written; a slot past \<open>nr_servers\<close> is never read before it is written.
  The responses that \<open>PRINT_RESPONSE\<close> prints while queues are executed are collected in
  \<open>stdout\<close>. As before, \<open>None\<close> is an execution with undefined behaviour.
\<close>

record load_balancer =
  servers :: "nat list"
  nr_servers :: nat
  max_servers :: nat
  enable_vnodes :: bool

record state =
  main :: load_balancer
  mem :: "server option list"
  stdout :: "response list"

definition init_load_balancer :: "nat \<Rightarrow> bool \<Rightarrow> state" where
  "init_load_balancer MAX_SERVERS vnodes =
     \<lparr>main = \<lparr>servers = [], nr_servers = 0, max_servers = MAX_SERVERS, enable_vnodes = vnodes\<rparr>,
      mem = [], stdout = []\<rparr>"

text \<open>Following a pointer to a server.\<close>

definition load :: "server option list \<Rightarrow> nat \<Rightarrow> server option" where
  "load m a = (if a < length m then m ! a else None)"

text \<open>\<open>main->servers[i]\<close>, as a pointer and dereferenced.\<close>

definition server_ptr :: "state \<Rightarrow> nat \<Rightarrow> nat option" where
  "server_ptr st i = (if i < length (servers (main st)) then Some (servers (main st) ! i) else None)"

definition server_at :: "state \<Rightarrow> nat \<Rightarrow> server option" where
  "server_at st i = (case server_ptr st i of None \<Rightarrow> None | Some a \<Rightarrow> load (mem st) a)"

text \<open>
  The server \<open>s\<close> that the functions of server.c work on when they are given the pointer
  \<open>a\<close>: the original server if \<open>a\<close> is a replica, the server at \<open>a\<close> otherwise. The result is
  the address of \<open>s\<close> and \<open>s\<close>.
\<close>

definition resolve :: "server option list \<Rightarrow> nat \<Rightarrow> (nat \<times> server) option" where
  "resolve m a =
     (case load m a of
        None \<Rightarrow> None
      | Some serv \<Rightarrow>
          (case original_server serv of
             None \<Rightarrow> Some (a, serv)
           | Some orig \<Rightarrow> (case load m orig of None \<Rightarrow> None | Some s \<Rightarrow> Some (orig, s))))"

text \<open>The primary family of a server id.\<close>

definition family :: "nat \<Rightarrow> nat" where
  "family sid = sid mod 100000"

text \<open>
  \<open>get_insert_poz\<close>: the position in the ring for a server with hash \<open>h\<close> and id \<open>sid\<close>, or
  \<open>- 1\<close> for the end. The loop is a recursion over the ring entries from position \<open>i\<close> on.
\<close>

fun insert_poz_loop :: "server option list \<Rightarrow> nat \<Rightarrow> nat \<Rightarrow> nat \<Rightarrow> nat \<Rightarrow> nat list \<Rightarrow> int option" where
  "insert_poz_loop m h sid prev_hash i [] = Some (- 1)"
| "insert_poz_loop m h sid prev_hash i (a # ring) =
     (case load m a of
        None \<Rightarrow> None
      | Some sv \<Rightarrow>
          if hash sv > h \<and> prev_hash < h then Some (int i)
          else if hash sv = h then
            (if server_id sv < sid then Some (int i) else Some (int i + 1))
          else insert_poz_loop m h sid (hash sv) (i + 1) ring)"

definition get_insert_poz :: "state \<Rightarrow> nat \<Rightarrow> nat \<Rightarrow> int option" where
  "get_insert_poz st h sid =
     (if nr_servers (main st) = 0 then None
      else
        (case server_at st (nr_servers (main st) - 1) of
           None \<Rightarrow> None
         | Some lst \<Rightarrow>
             if hash lst < h then Some (- 1)
             else if hash lst = h then
               (if server_id lst < sid then Some (- 1) else Some (int (nr_servers (main st)) - 1))
             else if length (servers (main st)) < nr_servers (main st) then None
             else insert_poz_loop (mem st) h sid 0 0 (take (nr_servers (main st)) (servers (main st)))))"

text \<open>
  \<open>get_all_keys\<close>: the keys of the database of a server, chain by chain, in an array of
  \<open>size\<close> pointers. More keys than that would be written past the array.
\<close>

definition get_all_keys :: "server \<Rightarrow> string list option" where
  "get_all_keys s =
     (if length (buckets (local_db s)) < capacity (local_db s) then None
      else
        (let key_list = map key (concat (take (capacity (local_db s)) (buckets (local_db s))))
         in if length key_list > size_cache (local_db s) then None else Some key_list))"

definition should_redistribute :: "server \<Rightarrow> server \<Rightarrow> int \<Rightarrow> nat \<Rightarrow> bool" where
  "should_redistribute new_server next_server pos h \<longleftrightarrow>
     (if pos = 0 \<and> (h > hash next_server \<or> h \<le> hash new_server) then True
      else if pos \<noteq> 0 \<and> pos \<noteq> - 1 \<and> h \<le> hash new_server then True
      else if pos = - 1 \<and> h > hash next_server \<and> h \<le> hash new_server then True
      else False)"

text \<open>
  The search of \<open>redistribute_keys\<close> for the server \<open>serv\<close> of a key with hash \<open>h\<close>: the first
  ring entry outside the family of the new server whose hash is at least \<open>h\<close>; the result
  is a pointer, \<open>None\<close> for \<open>NULL\<close>.
\<close>

fun first_owner :: "server option list \<Rightarrow> nat \<Rightarrow> nat \<Rightarrow> nat list \<Rightarrow> nat option option" where
  "first_owner m h new_id [] = Some None"
| "first_owner m h new_id (a # ring) =
     (case load m a of
        None \<Rightarrow> None
      | Some sv \<Rightarrow>
          if h \<le> hash sv \<and> family (server_id sv) \<noteq> family new_id then Some (Some a)
          else first_owner m h new_id ring)"

definition key_owner :: "state \<Rightarrow> nat \<Rightarrow> nat \<Rightarrow> nat option option" where
  "key_owner st h new_id =
     (if nr_servers (main st) = 0 then None
      else
        (case server_at st (nr_servers (main st) - 1) of
           None \<Rightarrow> None
         | Some lst \<Rightarrow>
             if h \<ge> hash lst \<and> family (server_id lst) \<noteq> family new_id
             then (case server_ptr st 0 of None \<Rightarrow> None | Some a \<Rightarrow> Some (Some a))
             else if length (servers (main st)) < nr_servers (main st) then None
             else first_owner (mem st) h new_id (take (nr_servers (main st)) (servers (main st)))))"

text \<open>
  One round of the loop of \<open>redistribute_keys\<close>, for one key: if the key should move
  (\<open>move_key\<close>), its value is read from the database of the next server (or of its
  original), put into the database of the new server (or of its original) and the key
  is removed from the cache and the database of the next server. A key that is not in
  the database has the value \<open>NULL\<close>, which \<open>lru_cache_put\<close> must not be given.
\<close>

definition move_key :: "state \<Rightarrow> nat \<Rightarrow> nat \<Rightarrow> string \<Rightarrow> state option" where
  "move_key st new_s next_s k =
     (case resolve (mem st) next_s of
        None \<Rightarrow> None
      | Some (next_a, nxt) \<Rightarrow>
          (case lru_cache_get (local_db nxt) k of
             None \<Rightarrow> None
           | Some (None, d1) \<Rightarrow> None
           | Some (Some v, d1) \<Rightarrow>
               (let m1 = (mem st)[next_a := Some (nxt\<lparr>local_db := d1\<rparr>)] in
                (case resolve m1 new_s of
                   None \<Rightarrow> None
                 | Some (new_a, new) \<Rightarrow>
                     (case lru_cache_put (local_db new) k v of
                        None \<Rightarrow> None
                      | Some (b, ev, d2) \<Rightarrow>
                          (let m2 = m1[new_a := Some (new\<lparr>local_db := d2\<rparr>)] in
                           (case load m2 next_a of
                              None \<Rightarrow> None
                            | Some nxt2 \<Rightarrow>
                                (case lru_cache_remove (cache nxt2) k of
                                   None \<Rightarrow> None
                                 | Some c3 \<Rightarrow>
                                     (case lru_cache_remove (local_db nxt2) k of
                                        None \<Rightarrow> None
                                      | Some d3 \<Rightarrow>
                                          Some (st\<lparr>mem := m2[next_a := Some (nxt2\<lparr>cache := c3, local_db := d3\<rparr>)]\<rparr>))))))))))"

definition redistribute_key ::
  "(string \<Rightarrow> nat) \<Rightarrow> state \<Rightarrow> nat \<Rightarrow> nat \<Rightarrow> int \<Rightarrow> string \<Rightarrow> state option" where
  "redistribute_key hash_string st new_s next_s poz k =
     (case load (mem st) new_s of
        None \<Rightarrow> None
      | Some new_server \<Rightarrow>
          (case load (mem st) next_s of
             None \<Rightarrow> None
           | Some next_server \<Rightarrow>
               (case key_owner st (hash_string k) (server_id new_server) of
                  None \<Rightarrow> None
                | Some serv \<Rightarrow>
                    (let ok = should_redistribute new_server next_server poz (hash_string k) in
                     if (ok \<and> \<not> enable_vnodes (main st)) \<or>
                        (ok \<and> enable_vnodes (main st) \<and> serv = Some next_s)
                     then move_key st new_s next_s k
                     else Some st))))"

fun redistribute_loop ::
  "(string \<Rightarrow> nat) \<Rightarrow> state \<Rightarrow> nat \<Rightarrow> nat \<Rightarrow> int \<Rightarrow> string list \<Rightarrow> state option" where
  "redistribute_loop hash_string st new_s next_s poz [] = Some st"
| "redistribute_loop hash_string st new_s next_s poz (k # ks) =
     (case redistribute_key hash_string st new_s next_s poz k of
        None \<Rightarrow> None
      | Some st1 \<Rightarrow> redistribute_loop hash_string st1 new_s next_s poz ks)"

text \<open>
  \<open>redistribute_keys\<close> walks over the first \<open>nr_keys\<close> entries of \<open>key_list\<close>, where \<open>nr_keys\<close> is
  the size of the database of the next server (or of its original) at the start.
\<close>

definition redistribute_keys ::
  "(string \<Rightarrow> nat) \<Rightarrow> state \<Rightarrow> string list \<Rightarrow> nat \<Rightarrow> nat \<Rightarrow> int \<Rightarrow> state option" where
  "redistribute_keys hash_string st key_list new_s next_s poz =
     (case resolve (mem st) next_s of
        None \<Rightarrow> None
      | Some (next_a, nxt) \<Rightarrow>
          (let nr_keys = size_cache (local_db nxt) in
           if nr_keys > length key_list then None
           else redistribute_loop hash_string st new_s next_s poz (take nr_keys key_list)))"

fun find_server_index_loop :: "server option list \<Rightarrow> nat \<Rightarrow> nat \<Rightarrow> nat list \<Rightarrow> int option" where
  "find_server_index_loop m sid i [] = Some (- 1)"
| "find_server_index_loop m sid i (a # ring) =
     (case load m a of
        None \<Rightarrow> None
      | Some sv \<Rightarrow>
          if server_id sv = sid then Some (int i)
          else find_server_index_loop m sid (i + 1) ring)"

definition find_server_index :: "state \<Rightarrow> nat \<Rightarrow> int option" where
  "find_server_index st sid =
     (if length (servers (main st)) < nr_servers (main st) then None
      else find_server_index_loop (mem st) sid 0 (take (nr_servers (main st)) (servers (main st))))"

text \<open>
  \<open>find_next_server\<close>: the loop visits the positions after \<open>current_index\<close>, wrapping
  around, until it is back at \<open>current_index\<close>; for a position inside the ring these are
  the other \<open>nr_servers - 1\<close> positions. The result is a pointer, \<open>None\<close> for \<open>NULL\<close>. For a
  position outside the ring the loop need not end; this is treated like undefined
  behaviour.
\<close>

fun find_next_loop :: "state \<Rightarrow> nat \<Rightarrow> nat list \<Rightarrow> nat option option" where
  "find_next_loop st fam [] = Some None"
| "find_next_loop st fam (i # is) =
     (case server_at st i of
        None \<Rightarrow> None
      | Some sv \<Rightarrow>
          if family (server_id sv) \<noteq> fam then Some (server_ptr st i)
          else find_next_loop st fam is)"

definition find_next_server :: "state \<Rightarrow> nat \<Rightarrow> nat option option" where
  "find_next_server st current_index =
     (let n = nr_servers (main st) in
      if n = 0 \<or> current_index \<ge> n then None
      else
        (case server_at st current_index of
           None \<Rightarrow> (if n = 1 then Some None else None)
         | Some cur \<Rightarrow>
             find_next_loop st (family (server_id cur))
               (map (\<lambda>j. (current_index + 1 + j) mod n) [0..<n - 1])))"

text \<open>
  \<open>execute_edit_tasks_for_document\<close> called on the pointer \<open>a\<close>: the queue of the server, or
  of its original, is executed and the responses are printed.
\<close>

definition execute_edit_tasks :: "constants \<Rightarrow> state \<Rightarrow> nat \<Rightarrow> state option" where
  "execute_edit_tasks K st a =
     (case load (mem st) a of
        None \<Rightarrow> None
      | Some serv \<Rightarrow>
          (case resolve (mem st) a of
             None \<Rightarrow> None
           | Some (sa, s) \<Rightarrow>
               (case execute_edit_tasks_for_document K (server_id serv) s of
                  None \<Rightarrow> None
                | Some (out, s') \<Rightarrow>
                    Some (st\<lparr>mem := (mem st)[sa := Some s'], stdout := stdout st @ out\<rparr>))))"

text \<open>A write to slot \<open>i\<close> of the array, which is the next unwritten slot at most.\<close>

definition array_write :: "nat list \<Rightarrow> nat \<Rightarrow> nat \<Rightarrow> nat list" where
  "array_write xs i x = (if i < length xs then xs[i := x] else xs @ [x])"

text \<open>
  \<open>insert_server\<close>. The new server is written into the array (at the end, or at \<open>poz\<close> after
  the entries from \<open>poz\<close> on have moved up by one), then keys move to it from the next
  server, and only then \<open>nr_servers\<close> grows: while the keys move, the ring that
  \<open>redistribute_keys\<close> and \<open>find_next_server\<close> see still has the old number of entries.
  Without virtual nodes the next server is the entry after the new one (the first entry
  when the new one is at the end); with virtual nodes it is the next entry of another
  family, if there is one.
\<close>

definition insert_server :: "constants \<Rightarrow> (string \<Rightarrow> nat) \<Rightarrow> state \<Rightarrow> nat \<Rightarrow> state option" where
  "insert_server K hash_string st s =
     (case load (mem st) s of
        None \<Rightarrow> None
      | Some new_server \<Rightarrow>
          (case get_insert_poz st (hash new_server) (server_id new_server) of
             None \<Rightarrow> None
           | Some poz \<Rightarrow>
               (let n = nr_servers (main st); arr = servers (main st) in
                if n \<ge> max_servers (main st) \<or> length arr < n then None
                else
                  (let arr1 = (if poz = - 1 then array_write arr n s
                               else if nat poz < n then take (nat poz) arr @ [s] @ drop (nat poz) (take n arr)
                               else array_write arr (nat poz) s);
                       st1 = st\<lparr>main := (main st)\<lparr>servers := arr1\<rparr>\<rparr>
                   in if poz \<noteq> - 1 \<and> nat poz > length arr then None
                      else
                        (case
                           (if \<not> enable_vnodes (main st) then
                              (case server_ptr st1 (if poz = - 1 then 0 else nat poz + 1) of
                                 None \<Rightarrow> None
                               | Some next_server \<Rightarrow>
                                   (case execute_edit_tasks K st1 next_server of
                                      None \<Rightarrow> None
                                    | Some st2 \<Rightarrow>
                                        (case load (mem st2) next_server of
                                           None \<Rightarrow> None
                                         | Some nxt \<Rightarrow>
                                             (case get_all_keys nxt of
                                                None \<Rightarrow> None
                                              | Some key_list \<Rightarrow>
                                                  redistribute_keys hash_string st2 key_list s next_server poz))))
                            else
                              (case (if poz = - 1
                                     then find_next_loop st1 (family (server_id new_server)) [0..<n]
                                     else find_next_server st1 (nat poz)) of
                                 None \<Rightarrow> None
                               | Some None \<Rightarrow> Some st1
                               | Some (Some next_server) \<Rightarrow>
                                   (case execute_edit_tasks K st1 next_server of
                                      None \<Rightarrow> None
                                    | Some st2 \<Rightarrow>
                                        (case resolve (mem st2) next_server of
                                           None \<Rightarrow> None
                                         | Some (na, nxt) \<Rightarrow>
                                             (case get_all_keys nxt of
                                                None \<Rightarrow> None
                                              | Some key_list \<Rightarrow>
                                                  redistribute_keys hash_string st2 key_list s next_server poz)))))
                         of
                           None \<Rightarrow> None
                         | Some st3 \<Rightarrow>
                             Some (st3\<lparr>main := (main st3)\<lparr>nr_servers := nr_servers (main st3) + 1\<rparr>\<rparr>))))))"

text \<open>
  \<open>loader_add_server\<close>: the new server and, with virtual nodes, its two replicas (ids
  \<open>server_id + 100000\<close> and \<open>server_id + 200000\<close> in 32 bits, pointing to the new server)
  are allocated and inserted. The first server of an empty ring is written to slot 0
  directly.
\<close>

definition new_server :: "(string \<Rightarrow> nat) \<Rightarrow> (nat \<Rightarrow> nat) \<Rightarrow> nat \<Rightarrow> nat \<Rightarrow> nat option \<Rightarrow> server" where
  "new_server hash_string hash_uint sid cache_size orig =
     (init_server hash_string cache_size)
       \<lparr>server_id := sid, hash := hash_uint sid, original_server := orig\<rparr>"

definition loader_add_server ::
  "constants \<Rightarrow> (string \<Rightarrow> nat) \<Rightarrow> (nat \<Rightarrow> nat) \<Rightarrow> state \<Rightarrow> nat \<Rightarrow> nat \<Rightarrow> state option" where
  "loader_add_server K hash_string hash_uint st sid cache_size =
     (let s = length (mem st);
          copy1 = s + 1;
          copy2 = s + 2;
          m1 = mem st @ [Some (new_server hash_string hash_uint sid cache_size None)];
          m2 = (if enable_vnodes (main st)
                then m1 @ [Some (new_server hash_string hash_uint ((sid + 100000) mod 4294967296) cache_size (Some s)),
                           Some (new_server hash_string hash_uint ((sid + 200000) mod 4294967296) cache_size (Some s))]
                else m1);
          st1 = st\<lparr>mem := m2\<rparr>
      in if nr_servers (main st) = 0 then
           (if max_servers (main st) = 0 then None
            else
              (let st2 = st1\<lparr>main := (main st)\<lparr>nr_servers := 1, servers := array_write (servers (main st)) 0 s\<rparr>\<rparr>
               in if enable_vnodes (main st) then
                    (case insert_server K hash_string st2 copy1 of
                       None \<Rightarrow> None
                     | Some st3 \<Rightarrow> insert_server K hash_string st3 copy2)
                  else Some st2))
         else
           (let st2 = (if max_servers (main st) \<le> nr_servers (main st) + 3
                       then st1\<lparr>main := (main st)\<lparr>max_servers := max_servers (main st) * 2\<rparr>\<rparr>
                       else st1)
            in if enable_vnodes (main st) then
                 (case insert_server K hash_string st2 s of
                    None \<Rightarrow> None
                  | Some st3 \<Rightarrow>
                      (case insert_server K hash_string st3 copy1 of
                         None \<Rightarrow> None
                       | Some st4 \<Rightarrow> insert_server K hash_string st4 copy2))
               else insert_server K hash_string st2 s))"

text \<open>
  One round of the copy loops of \<open>remove_replicas\<close> and \<open>loader_remove_server\<close>: the value of
  the key is read from the database of the server \<open>target\<close> and put into the database of
  the server \<open>next_server\<close> (\<open>via_original\<close>: of its original, if it has one). The pointer
  \<open>next_server\<close> may be \<open>NULL\<close>; it is followed all the same.
\<close>

definition copy_key :: "state \<Rightarrow> nat \<Rightarrow> nat option \<Rightarrow> bool \<Rightarrow> string \<Rightarrow> state option" where
  "copy_key st target next_server via_original k =
     (case load (mem st) target of
        None \<Rightarrow> None
      | Some tgt \<Rightarrow>
          (case lru_cache_get (local_db tgt) k of
             None \<Rightarrow> None
           | Some (None, d1) \<Rightarrow> None
           | Some (Some v, d1) \<Rightarrow>
               (let m1 = (mem st)[target := Some (tgt\<lparr>local_db := d1\<rparr>)] in
                (case next_server of
                   None \<Rightarrow> None
                 | Some next_s \<Rightarrow>
                     (case (if via_original then resolve m1 next_s
                            else (case load m1 next_s of None \<Rightarrow> None | Some sv \<Rightarrow> Some (next_s, sv))) of
                        None \<Rightarrow> None
                      | Some (na, nxt) \<Rightarrow>
                          (case lru_cache_put (local_db nxt) k v of
                             None \<Rightarrow> None
                           | Some (b, ev, d2) \<Rightarrow>
                               Some (st\<lparr>mem := m1[na := Some (nxt\<lparr>local_db := d2\<rparr>)]\<rparr>)))))))"

fun copy_loop :: "state \<Rightarrow> nat \<Rightarrow> nat option \<Rightarrow> bool \<Rightarrow> string list \<Rightarrow> state option" where
  "copy_loop st target next_server via_original [] = Some st"
| "copy_loop st target next_server via_original (k # ks) =
     (case copy_key st target next_server via_original k of
        None \<Rightarrow> None
      | Some st1 \<Rightarrow> copy_loop st1 target next_server via_original ks)"

text \<open>
  The copy of all keys of \<open>target\<close>: \<open>get_all_keys\<close>, then one round for each of the first
  \<open>size\<close> entries of the key array, where \<open>size\<close> is the size of the database of \<open>target\<close>
  (which these rounds do not change).
\<close>

definition copy_all_keys :: "state \<Rightarrow> nat \<Rightarrow> nat option \<Rightarrow> bool \<Rightarrow> state option" where
  "copy_all_keys st target next_server via_original =
     (case load (mem st) target of
        None \<Rightarrow> None
      | Some tgt \<Rightarrow>
          (case get_all_keys tgt of
             None \<Rightarrow> None
           | Some keys \<Rightarrow>
               if size_cache (local_db tgt) > length keys then None
               else copy_loop st target next_server via_original (take (size_cache (local_db tgt)) keys)))"

text \<open>
  The last loop of \<open>remove_replicas\<close> also removes each key from the database of \<open>target\<close>
  after copying it, and compares the counter \<open>j\<close> with the size of that database, which
  shrinks, before every round. The list is the part of the key array from \<open>j\<close> on.
\<close>

fun move_loop :: "state \<Rightarrow> nat \<Rightarrow> nat option \<Rightarrow> nat \<Rightarrow> string list \<Rightarrow> state option" where
  "move_loop st target next_server j [] =
     (case load (mem st) target of
        None \<Rightarrow> None
      | Some tgt \<Rightarrow> if j < size_cache (local_db tgt) then None else Some st)"
| "move_loop st target next_server j (k # ks) =
     (case load (mem st) target of
        None \<Rightarrow> None
      | Some tgt \<Rightarrow>
          if j < size_cache (local_db tgt) then
            (case copy_key st target next_server True k of
               None \<Rightarrow> None
             | Some st1 \<Rightarrow>
                 (case load (mem st1) target of
                    None \<Rightarrow> None
                  | Some tgt1 \<Rightarrow>
                      (case lru_cache_remove (local_db tgt1) k of
                         None \<Rightarrow> None
                       | Some d \<Rightarrow>
                           move_loop (st1\<lparr>mem := (mem st1)[target := Some (tgt1\<lparr>local_db := d\<rparr>)]\<rparr>)
                             target next_server (j + 1) ks)))
          else Some st)"

text \<open>
  \<open>remove_replicas\<close>: for each of the two replicas that is in the ring, all keys of the
  primary are copied to the next server of another family after the replica; then they
  are moved to the next server after the primary.
\<close>

definition copy_for_replica :: "state \<Rightarrow> nat \<Rightarrow> nat \<Rightarrow> state option" where
  "copy_for_replica st target replica_id =
     (case find_server_index st replica_id of
        None \<Rightarrow> None
      | Some replica_idx \<Rightarrow>
          if replica_idx = - 1 then Some st
          else
            (case find_next_server st (nat replica_idx) of
               None \<Rightarrow> None
             | Some next_server \<Rightarrow> copy_all_keys st target next_server True))"

definition remove_replicas :: "state \<Rightarrow> nat \<Rightarrow> state option" where
  "remove_replicas st sid =
     (case find_server_index st (family sid) of
        None \<Rightarrow> None
      | Some idx \<Rightarrow>
          if idx = - 1 then Some st
          else
            (case server_ptr st (nat idx) of
               None \<Rightarrow> None
             | Some target \<Rightarrow>
                 (case copy_for_replica st target ((family sid + 100000) mod 4294967296) of
                    None \<Rightarrow> None
                  | Some st1 \<Rightarrow>
                      (case copy_for_replica st1 target ((family sid + 200000) mod 4294967296) of
                         None \<Rightarrow> None
                       | Some st2 \<Rightarrow>
                           (case find_next_server st2 (nat idx) of
                              None \<Rightarrow> None
                            | Some next_server \<Rightarrow>
                                (case load (mem st2) target of
                                   None \<Rightarrow> None
                                 | Some tgt \<Rightarrow>
                                     (case get_all_keys tgt of
                                        None \<Rightarrow> None
                                      | Some keys \<Rightarrow> move_loop st2 target next_server 0 keys)))))))"

text \<open>
  The body of the loop of \<open>loader_remove_server\<close> for a ring entry at position \<open>i\<close> whose
  family is the one to remove. \<open>ok\<close> tells whether an entry of the family was removed
  before. First the keys migrate (\<open>migrate_entry\<close>): without virtual nodes the queue of
  the server is executed and its keys are copied to the entry after it (the first entry
  if it is the last); with virtual nodes and \<open>ok\<close> not set, a replica has the queue of its
  original executed and calls \<open>remove_replicas\<close>, and the primary itself does nothing
  here. Then the server is freed and the entries after it move down by one
  (\<open>unlink_entry\<close>).
\<close>

definition migrate_entry :: "constants \<Rightarrow> state \<Rightarrow> nat \<Rightarrow> server \<Rightarrow> nat \<Rightarrow> bool \<Rightarrow> state option" where
  "migrate_entry K st a sv next_s ok =
     (if enable_vnodes (main st) \<and> \<not> ok then
        (case original_server sv of
           None \<Rightarrow> Some st
         | Some serv \<Rightarrow>
             (case execute_edit_tasks K st serv of
                None \<Rightarrow> None
              | Some st1 \<Rightarrow>
                  (case load (mem st1) serv of
                     None \<Rightarrow> None
                   | Some orig \<Rightarrow> remove_replicas st1 (server_id orig))))
      else if \<not> enable_vnodes (main st) then
        (case execute_edit_tasks K st a of
           None \<Rightarrow> None
         | Some st1 \<Rightarrow> copy_all_keys st1 a (Some next_s) False)
      else Some st)"

definition unlink_entry :: "state \<Rightarrow> nat \<Rightarrow> nat \<Rightarrow> state option" where
  "unlink_entry st a i =
     (if length (servers (main st)) < nr_servers (main st) \<or> nr_servers (main st) = 0 then None
      else
        Some (st\<lparr>mem := (mem st)[a := None],
                 main := (main st)
                   \<lparr>servers := take i (servers (main st)) @
                               drop (i + 1) (take (nr_servers (main st)) (servers (main st))),
                    nr_servers := nr_servers (main st) - 1\<rparr>\<rparr>))"

definition remove_entry :: "constants \<Rightarrow> state \<Rightarrow> nat \<Rightarrow> bool \<Rightarrow> state option" where
  "remove_entry K st i ok =
     (case server_ptr st i of
        None \<Rightarrow> None
      | Some a \<Rightarrow>
          (case load (mem st) a of
             None \<Rightarrow> None
           | Some sv \<Rightarrow>
               (case server_ptr st (if i = nr_servers (main st) - 1 then 0 else i + 1) of
                  None \<Rightarrow> None
                | Some next_s \<Rightarrow>
                    (case migrate_entry K st a sv next_s ok of
                       None \<Rightarrow> None
                     | Some st2 \<Rightarrow> unlink_entry st2 a i))))"

text \<open>None of these steps touches the ring itself.\<close>

lemma execute_edit_tasks_main: "execute_edit_tasks K st a = Some st' \<Longrightarrow> main st' = main st"
  by (auto simp: execute_edit_tasks_def split: option.splits prod.splits)

lemma copy_key_main: "copy_key st target nxt via k = Some st' \<Longrightarrow> main st' = main st"
  unfolding copy_key_def Let_def
  by (simp split: option.splits prod.splits if_splits) auto

lemma copy_loop_main: "copy_loop st target nxt via ks = Some st' \<Longrightarrow> main st' = main st"
proof (induction ks arbitrary: st)
  case Nil
  then show ?case by simp
next
  case (Cons k ks)
  then obtain st1 where "copy_key st target nxt via k = Some st1"
    "copy_loop st1 target nxt via ks = Some st'" by (auto split: option.splits)
  with Cons.IH copy_key_main show ?case by metis
qed

lemma copy_all_keys_main: "copy_all_keys st target nxt via = Some st' \<Longrightarrow> main st' = main st"
  unfolding copy_all_keys_def
  by (simp split: option.splits if_splits) (auto dest: copy_loop_main)

lemma move_loop_main: "move_loop st target nxt j ks = Some st' \<Longrightarrow> main st' = main st"
proof (induction ks arbitrary: st j)
  case Nil
  then show ?case by (simp split: option.splits if_splits)
next
  case (Cons k ks)
  show ?case
  proof (cases "load (mem st) target")
    case None
    with Cons.prems show ?thesis by simp
  next
    case (Some tgt)
    show ?thesis
    proof (cases "j < size_cache (local_db tgt)")
      case False
      with Cons.prems Some show ?thesis by simp
    next
      case True
      with Cons.prems Some obtain st1 tgt1 d where
        c: "copy_key st target nxt True k = Some st1" "load (mem st1) target = Some tgt1"
          "lru_cache_remove (local_db tgt1) k = Some d"
          "move_loop (st1\<lparr>mem := (mem st1)[target := Some (tgt1\<lparr>local_db := d\<rparr>)]\<rparr>) target nxt (j + 1) ks = Some st'"
        by (auto split: option.splits)
      from Cons.IH [OF c(4)] copy_key_main [OF c(1)] show ?thesis by simp
    qed
  qed
qed

lemma copy_for_replica_main: "copy_for_replica st target rid = Some st' \<Longrightarrow> main st' = main st"
  unfolding copy_for_replica_def
  by (simp split: option.splits if_splits) (auto dest: copy_all_keys_main)

lemma remove_replicas_main:
  assumes "remove_replicas st sid = Some st'"
  shows "main st' = main st"
proof (cases "find_server_index st (family sid)")
  case None
  with assms show ?thesis by (simp add: remove_replicas_def)
next
  case (Some idx)
  show ?thesis
  proof (cases "idx = - 1")
    case True
    with assms Some show ?thesis by (simp add: remove_replicas_def)
  next
    case False
    with assms Some obtain target st1 st2 nxt tgt keys where
      r: "copy_for_replica st target ((family sid + 100000) mod 4294967296) = Some st1"
        "copy_for_replica st1 target ((family sid + 200000) mod 4294967296) = Some st2"
        "move_loop st2 target nxt 0 keys = Some st'"
      by (auto simp: remove_replicas_def split: option.splits)
    from copy_for_replica_main [OF r(1)] copy_for_replica_main [OF r(2)] move_loop_main [OF r(3)]
    show ?thesis by simp
  qed
qed

lemma migrate_entry_main:
  assumes "migrate_entry K st a sv next_s ok = Some st2"
  shows "main st2 = main st"
proof (cases "enable_vnodes (main st) \<and> \<not> ok")
  case True
  show ?thesis
  proof (cases "original_server sv")
    case None
    with True assms show ?thesis by (simp add: migrate_entry_def)
  next
    case (Some serv)
    with True assms have "(case execute_edit_tasks K st serv of
                None \<Rightarrow> None
              | Some st1 \<Rightarrow>
                  (case load (mem st1) serv of
                     None \<Rightarrow> None
                   | Some orig \<Rightarrow> remove_replicas st1 (server_id orig))) = Some st2"
      by (simp add: migrate_entry_def)
    then obtain st1 where s1: "execute_edit_tasks K st serv = Some st1"
      "(case load (mem st1) serv of
          None \<Rightarrow> None
        | Some orig \<Rightarrow> remove_replicas st1 (server_id orig)) = Some st2"
      by (cases "execute_edit_tasks K st serv") auto
    then obtain orig :: server where "remove_replicas st1 (server_id orig) = Some st2"
      by (cases "load (mem st1) serv") auto
    with s1(1) execute_edit_tasks_main remove_replicas_main show ?thesis by metis
  qed
next
  case False
  show ?thesis
  proof (cases "enable_vnodes (main st)")
    case True
    with False assms show ?thesis by (simp add: migrate_entry_def)
  next
    case nv: False
    with assms obtain st1 where
      "execute_edit_tasks K st a = Some st1" "copy_all_keys st1 a (Some next_s) False = Some st2"
      by (auto simp: migrate_entry_def split: option.splits)
    with execute_edit_tasks_main copy_all_keys_main show ?thesis by metis
  qed
qed

lemma remove_entry_nr:
  assumes "remove_entry K st i ok = Some st'"
  shows "nr_servers (main st') < nr_servers (main st)"
proof -
  from assms obtain a sv next_s st2 where
    m: "migrate_entry K st a sv next_s ok = Some st2" and u: "unlink_entry st2 a i = Some st'"
    by (auto simp: remove_entry_def split: option.splits)
  from u have "nr_servers (main st') < nr_servers (main st2)"
    by (auto simp: unlink_entry_def split: if_splits)
  with migrate_entry_main [OF m] show ?thesis by simp
qed

text \<open>
  The loop of \<open>loader_remove_server\<close>: after an entry was removed the same position is
  looked at again, since the entries after it have moved down.
\<close>

function remove_loop :: "constants \<Rightarrow> state \<Rightarrow> nat \<Rightarrow> nat \<Rightarrow> bool \<Rightarrow> state option" where
  "remove_loop K st sid i ok =
     (if i < nr_servers (main st) then
        (case server_at st i of
           None \<Rightarrow> None
         | Some sv \<Rightarrow>
             if family (server_id sv) = sid then
               (case remove_entry K st i ok of
                  None \<Rightarrow> None
                | Some st1 \<Rightarrow> remove_loop K st1 sid i True)
             else remove_loop K st sid (i + 1) ok)
      else Some st)"
  by pat_completeness auto
termination
  apply (relation "measure (\<lambda>(K, st, sid, i, ok). nr_servers (main st) - i)")
    apply simp
   apply (auto dest!: remove_entry_nr)
  done

declare remove_loop.simps [simp del]

text \<open>\<open>loader_remove_server\<close>: the loop, then the array shrinks when less than half is used.\<close>

definition loader_remove_server :: "constants \<Rightarrow> state \<Rightarrow> nat \<Rightarrow> state option" where
  "loader_remove_server K st sid =
     (case remove_loop K st sid 0 False of
        None \<Rightarrow> None
      | Some st1 \<Rightarrow>
          if nr_servers (main st1) < max_servers (main st1) div 2
          then Some (st1\<lparr>main := (main st1)\<lparr>max_servers := max_servers (main st1) div 2\<rparr>\<rparr>)
          else Some st1)"

text \<open>
  \<open>loader_forward_request\<close>. The search for the target: the first entry if the hash of the
  document is greater than the hash of the last entry, and otherwise the first entry
  with a greater hash than the document; if there is none, \<open>target_server\<close> is read
  without ever having been set.
\<close>

fun first_greater :: "server option list \<Rightarrow> nat \<Rightarrow> nat list \<Rightarrow> nat option option" where
  "first_greater m h [] = Some None"
| "first_greater m h (a # ring) =
     (case load m a of
        None \<Rightarrow> None
      | Some sv \<Rightarrow> if h < hash sv then Some (Some a) else first_greater m h ring)"

text \<open>For a GET with virtual nodes: the first entry of the family with a greater hash.\<close>

fun first_replica :: "(nat \<Rightarrow> nat) \<Rightarrow> server option list \<Rightarrow> nat \<Rightarrow> nat \<Rightarrow> nat list \<Rightarrow> nat option option" where
  "first_replica hash_uint m h fam [] = Some None"
| "first_replica hash_uint m h fam (a # ring) =
     (case load m a of
        None \<Rightarrow> None
      | Some sv \<Rightarrow>
          if family (server_id sv) = fam \<and> h < hash_uint (server_id sv) then Some (Some a)
          else first_replica hash_uint m h fam ring)"

text \<open>The choice of the target server, as a pointer.\<close>

definition find_target ::
  "(string \<Rightarrow> nat) \<Rightarrow> (nat \<Rightarrow> nat) \<Rightarrow> state \<Rightarrow> request \<Rightarrow> nat option" where
  "find_target hash_string hash_uint st req =
     (let n = nr_servers (main st); h = hash_string (doc_name req);
          ring = take n (servers (main st)) in
      if n = 0 \<or> length (servers (main st)) < n then None
      else
        (case server_at st (n - 1) of
           None \<Rightarrow> None
         | Some lst \<Rightarrow>
             (case (if h > hash lst then Some (server_ptr st 0) else first_greater (mem st) h ring) of
                None \<Rightarrow> None
              | Some None \<Rightarrow> None
              | Some (Some target) \<Rightarrow>
                  (case load (mem st) target of
                     None \<Rightarrow> None
                   | Some tsv \<Rightarrow>
                       if req_type req = GET_DOCUMENT \<and> enable_vnodes (main st) then
                         (case first_replica hash_uint (mem st) h (family (server_id tsv)) ring of
                            None \<Rightarrow> None
                          | Some None \<Rightarrow> Some target
                          | Some (Some replica) \<Rightarrow> Some replica)
                       else Some target))))"

text \<open>
  \<open>server_handle_request\<close> called on the pointer \<open>a\<close>: it works on the server at \<open>a\<close>, or on
  its original, and answers with the id of the server at \<open>a\<close>.
\<close>

definition handle_at :: "constants \<Rightarrow> state \<Rightarrow> nat \<Rightarrow> request \<Rightarrow> (response \<times> state) option" where
  "handle_at K st a req =
     (case load (mem st) a of
        None \<Rightarrow> None
      | Some serv \<Rightarrow>
          (case resolve (mem st) a of
             None \<Rightarrow> None
           | Some (sa, s) \<Rightarrow>
               (case server_handle_request K (server_id serv) s req of
                  None \<Rightarrow> None
                | Some (out, res, s') \<Rightarrow>
                    Some (res, st\<lparr>mem := (mem st)[sa := Some s'], stdout := stdout st @ out\<rparr>))))"

definition loader_forward_request ::
  "constants \<Rightarrow> (string \<Rightarrow> nat) \<Rightarrow> (nat \<Rightarrow> nat) \<Rightarrow> state \<Rightarrow> request \<Rightarrow> (response \<times> state) option" where
  "loader_forward_request K hash_string hash_uint st req =
     (case find_target hash_string hash_uint st req of
        None \<Rightarrow> None
      | Some target_server \<Rightarrow> handle_at K st target_server req)"

subsection \<open>Runs of the load balancer\<close>

text \<open>
  What a run leaves behind. \<open>ring_view\<close> is the ring as the list of the id and the hash
  of each entry, in the order of the array. \<open>ring_sorted\<close> tells whether the ring is in
  ascending order of hash, entries of equal hash in ascending order of id. \<open>db_view\<close>
  lists, for every server that is not a replica, its id, the names of the documents in
  its database and the number of requests in its queue.
\<close>

definition ring_view :: "state \<Rightarrow> (nat \<times> nat) option list" where
  "ring_view st =
     map (\<lambda>a. map_option (\<lambda>s. (server_id s, hash s)) (load (mem st) a))
       (take (nr_servers (main st)) (servers (main st)))"

fun entries_sorted :: "(nat \<times> nat) list \<Rightarrow> bool" where
  "entries_sorted [] = True"
| "entries_sorted [x] = True"
| "entries_sorted ((i1, h1) # (i2, h2) # es) =
     ((h1 < h2 \<or> (h1 = h2 \<and> i1 < i2)) \<and> entries_sorted ((i2, h2) # es))"

definition ring_sorted :: "state \<Rightarrow> bool" where
  "ring_sorted st \<longleftrightarrow> None \<notin> set (ring_view st) \<and> entries_sorted (map the (ring_view st))"

definition db_view :: "state \<Rightarrow> (nat \<times> string list \<times> nat) list" where
  "db_view st =
     concat (map (\<lambda>x. case x of
                        None \<Rightarrow> []
                      | Some s \<Rightarrow>
                          if original_server s = None
                          then [(server_id s, map key (concat (buckets (local_db s))),
                                 size_q (task_queue s))]
                          else [])
               (mem st))"

text \<open>
  A run is a list of commands, as a program that uses the load balancer issues them: a
  server is added (with its id and the size of its cache) or removed, or a request is
  forwarded, and the response that comes back is printed after the responses that were
  printed while the request was handled.
\<close>

datatype command = ADD nat nat | REMOVE nat | REQ request

fun step ::
  "constants \<Rightarrow> (string \<Rightarrow> nat) \<Rightarrow> (nat \<Rightarrow> nat) \<Rightarrow> state \<Rightarrow> command \<Rightarrow> state option" where
  "step K hash_string hash_uint st (ADD sid cache_size) =
     loader_add_server K hash_string hash_uint st sid cache_size"
| "step K hash_string hash_uint st (REMOVE sid) = loader_remove_server K st sid"
| "step K hash_string hash_uint st (REQ req) =
     (case loader_forward_request K hash_string hash_uint st req of
        None \<Rightarrow> None
      | Some (res, st') \<Rightarrow> Some (st'\<lparr>stdout := stdout st' @ [res]\<rparr>))"

fun run ::
  "constants \<Rightarrow> (string \<Rightarrow> nat) \<Rightarrow> (nat \<Rightarrow> nat) \<Rightarrow> state \<Rightarrow> command list \<Rightarrow> state option" where
  "run K hash_string hash_uint st [] = Some st"
| "run K hash_string hash_uint st (c # cs) =
     (case step K hash_string hash_uint st c of
        None \<Rightarrow> None
      | Some st' \<Rightarrow> run K hash_string hash_uint st' cs)"

definition EDIT :: "string \<Rightarrow> string \<Rightarrow> command" where
  "EDIT name content = REQ \<lparr>req_type = EDIT_DOCUMENT, doc_name = name, doc_content = content\<rparr>"

definition GET :: "string \<Rightarrow> command" where
  "GET name = REQ \<lparr>req_type = GET_DOCUMENT, doc_name = name, doc_content = ''''\<rparr>"

text \<open>
  Hash functions for the examples. Documents are hashed by the length of their name
  throughout. Servers are hashed by \<open>times5\<close> (server 0 has the hash 0), by \<open>mod3_times5\<close>
  (servers 1 and 4 share the hash 5) or by \<open>times7_mod23\<close> (no two of the nine ring entries
  of the servers 1, 2 and 3 share a hash).
\<close>

definition times5 :: "nat \<Rightarrow> nat" where
  "times5 n = n * 5"

definition mod3_times5 :: "nat \<Rightarrow> nat" where
  "mod3_times5 n = (n mod 3) * 5"

definition times7_mod23 :: "nat \<Rightarrow> nat" where
  "times7_mod23 n = (n * 7) mod 23"


section \<open>Properties of the cache\<close>

lemma set_nth_concat: "i < length xss \<Longrightarrow> set (xss ! i) \<subseteq> set (concat xss)"
  by (induction xss arbitrary: i) (auto simp: nth_Cons split: nat.splits)

lemma scan_chain_absent: "k \<notin> key ` set ch \<Longrightarrow> scan_chain k ch = None"
  by (induction ch) auto

lemma lru_cache_get_miss:
  assumes "0 < capacity c" and "length (buckets c) = capacity c"
    and "k \<notin> cache_keys c"
  shows "lru_cache_get c k = Some (None, c)"
proof -
  let ?i = "hash_function c k mod capacity c"
  have i: "?i < length (buckets c)" using assms(1,2) by simp
  then have "set (buckets c ! ?i) \<subseteq> set (concat (buckets c))"
    by (rule set_nth_concat)
  with assms(3) have "k \<notin> key ` set (buckets c ! ?i)"
    unfolding cache_keys_def by blast
  then have "scan_chain k (buckets c ! ?i) = None" by (rule scan_chain_absent)
  with i assms(1) show ?thesis by (simp add: lru_cache_get_def Let_def)
qed

lemma fold_max_ge: "(m::nat) \<le> fold max xs m"
  by (induction xs arbitrary: m) (auto intro: order_trans [OF max.cobounded2])

lemma fold_max_mem: "x \<in> set xs \<Longrightarrow> (x::nat) \<le> fold max xs m"
proof (induction xs arbitrary: m)
  case Nil then show ?case by simp
next
  case (Cons a xs)
  show ?case
  proof (cases "x = a")
    case True
    have "a \<le> max a m" by simp
    also have "\<dots> \<le> fold max xs (max a m)" by (rule fold_max_ge)
    finally show ?thesis using True by simp
  next
    case False
    with Cons show ?thesis by simp
  qed
qed

lemma malloc_node_fresh: "malloc_node l \<notin> addr ` set l"
proof
  assume "malloc_node l \<in> addr ` set l"
  then have "malloc_node l \<in> set (map addr l)" by simp
  from fold_max_mem [OF this, of 0] show False by (simp add: malloc_node_def)
qed

lemma deref_Some: "deref l p = Some dn \<Longrightarrow> dn \<in> set l \<and> addr dn = p"
  unfolding deref_def by (induction l) (auto split: if_splits)

lemma deref_iff: "distinct (map addr l) \<Longrightarrow> deref l p = Some dn \<longleftrightarrow> dn \<in> set l \<and> addr dn = p"
  unfolding deref_def by (induction l) (auto split: if_splits)

lemma deref_None: "deref l p = None \<longleftrightarrow> p \<notin> addr ` set l"
  unfolding deref_def by (induction l) auto

lemma scan_chain_Some:
  "scan_chain k ch = Some (pre, n, post) \<Longrightarrow> ch = pre @ n # post \<and> key n = k \<and> k \<notin> key ` set pre"
  by (induction ch arbitrary: pre) (auto split: if_splits option.splits)

lemma scan_chain_present: "k \<in> key ` set ch \<Longrightarrow> \<exists>pre n post. scan_chain k ch = Some (pre, n, post)"
  by (induction ch) auto

lemma dll_add_last: "dll_add_nth_node l (length l) d = l @ [\<lparr>addr = malloc_node l, data = d\<rparr>]"
  by (simp add: dll_add_nth_node_def)

lemma put_scan_absent: "k \<notin> key ` set ch \<Longrightarrow> put_scan l k v ch = Some (Scanned ch False)"
  by (induction ch) auto

lemma put_scan_present:
  assumes "scan_chain k ch = Some (pre, node, post)"
    and "pointer_to_node node = Some p" and "deref l p = Some dn" and "key (data dn) = k"
  shows "put_scan l k v ch =
    Some (Promoted (pre @ node\<lparr>val := v, pointer_to_node := Some (malloc_node (dll_remove_node l p))\<rparr> # post)
       (dll_remove_node l p @ [\<lparr>addr = malloc_node (dll_remove_node l p), data = node\<lparr>val := v\<rparr>\<rparr>]))"
  using assms
proof (induction ch arbitrary: pre)
  case Nil
  then show ?case by simp
next
  case (Cons a ch)
  show ?case
  proof (cases "key a = k")
    case True
    with Cons.prems show ?thesis by (simp add: dll_add_last Let_def)
  next
    case False
    with Cons.prems obtain pre' where pre': "scan_chain k ch = Some (pre', node, post)" "pre = a # pre'"
      by (auto split: option.splits)
    from Cons.IH [OF pre'(1) Cons.prems(2,3,4)] False pre'(2) show ?thesis by simp
  qed
qed

lemma addr_inj: "distinct (map addr l) \<Longrightarrow> x \<in> set l \<Longrightarrow> y \<in> set l \<Longrightarrow> addr x = addr y \<Longrightarrow> x = y"
  by (auto simp: distinct_map dest: inj_onD)

lemma entry_ok_iff:
  assumes "distinct (map addr (index c))"
  shows "entry_ok c i e \<longleftrightarrow> hash_function c (key e) mod capacity c = i \<and>
     (\<exists>dn \<in> set (index c). pointer_to_node e = Some (addr dn) \<and> key (data dn) = key e)"
  using assms by (auto simp: entry_ok_def deref_iff deref_None split: option.splits dest: addr_inj)

lemma cache_inv_iff:
  "cache_inv c \<longleftrightarrow>
     0 < capacity c \<and> capacity c \<le> 2147483648 \<and> length (buckets c) = capacity c \<and>
     size_cache c = length (index c) \<and> size_cache c \<le> capacity c \<and>
     distinct (map addr (index c)) \<and> distinct (map (\<lambda>n. key (data n)) (index c)) \<and>
     (\<forall>i<capacity c. distinct (map key (buckets c ! i))) \<and>
     (\<forall>i<capacity c. \<forall>e\<in>set (buckets c ! i).
        hash_function c (key e) mod capacity c = i \<and>
        (\<exists>dn\<in>set (index c). pointer_to_node e = Some (addr dn) \<and> key (data dn) = key e)) \<and>
     (\<forall>n\<in>set (index c).
        key (data n) \<in> key ` set (buckets c ! (hash_function c (key (data n)) mod capacity c)))"
  (is "?L \<longleftrightarrow> ?R")
proof (cases "distinct (map addr (index c))")
  case True
  show ?thesis
    unfolding cache_inv_def index_ok_def chains_ok_def nodes_ok_def entry_ok_iff [OF True]
    by blast
next
  case False
  then show ?thesis by (auto simp: cache_inv_def index_ok_def)
qed

lemma key_inj: "distinct (map (\<lambda>n. key (data n)) l) \<Longrightarrow> x \<in> set l \<Longrightarrow> y \<in> set l \<Longrightarrow>
    key (data x) = key (data y) \<Longrightarrow> x = y"
  by (auto simp: distinct_map dest: inj_onD)

lemma inv_promote:
  assumes inv: "cache_inv c"
    and i: "i = hash_function c k mod capacity c"
    and sc: "scan_chain k (buckets c ! i) = Some (pre, node, post)"
    and p: "pointer_to_node node = Some p"
    and l1: "l1 = dll_remove_node (index c) p"
    and key': "key node' = k" and ptr': "pointer_to_node node' = Some (malloc_node l1)"
    and ch': "set ch' = insert node' (set pre \<union> set post)" "distinct (map key ch')"
    and d: "key d = k"
  shows "cache_inv (c\<lparr>buckets := (buckets c)[i := ch'],
                      index := l1 @ [\<lparr>addr = malloc_node l1, data = d\<rparr>]\<rparr>)"
proof -
  let ?l = "index c" and ?h = "\<lambda>x. hash_function c x mod capacity c"
  let ?nn = "\<lparr>addr = malloc_node l1, data = d\<rparr>"
  let ?l' = "l1 @ [?nn]"
  note I = inv [unfolded cache_inv_iff]
  from I have cap: "0 < capacity c" and len: "length (buckets c) = capacity c"
    and da: "distinct (map addr ?l)" and dk: "distinct (map (\<lambda>n. key (data n)) ?l)" by auto
  have icap: "i < capacity c" using cap i by simp
  from scan_chain_Some [OF sc]
  have ch: "buckets c ! i = pre @ node # post" and kn: "key node = k" and kpre: "k \<notin> key ` set pre"
    by auto
  have dch: "distinct (map key (buckets c ! i))" using I icap by blast
  have kpost: "k \<notin> key ` set post" using dch ch kn by auto
  have "node \<in> set (buckets c ! i)" using ch by simp
  with I icap obtain dn where dn: "dn \<in> set ?l" "pointer_to_node node = Some (addr dn)"
      "key (data dn) = key node" by blast
  with p have pdn: "addr dn = p" by simp
  have setl1: "set l1 = set ?l - {dn}"
    using da dn(1) pdn unfolding l1 dll_remove_node_def by (auto dest: addr_inj)
  have da1: "distinct (map addr l1)" unfolding l1 dll_remove_node_def
    using da by (simp add: distinct_map_filter)
  have len1: "length l1 = length ?l - 1"
  proof -
    have "distinct l1" "distinct ?l" using da1 da by (auto simp: distinct_map)
    then have "length l1 = card (set l1)" "length ?l = card (set ?l)"
      by (simp_all add: distinct_card)
    with setl1 dn(1) show ?thesis by simp
  qed
  have lpos: "0 < length ?l" using dn(1) by (cases ?l) auto
  have dk1: "distinct (map (\<lambda>n. key (data n)) l1)" unfolding l1 dll_remove_node_def
    using dk by (simp add: distinct_map_filter)
  have k1: "k \<notin> (\<lambda>n. key (data n)) ` set l1"
  proof
    assume "k \<in> (\<lambda>n. key (data n)) ` set l1"
    then obtain x where x: "x \<in> set l1" "key (data x) = k" by auto
    with setl1 have "x \<in> set ?l" "x \<noteq> dn" by auto
    with key_inj [OF dk this(1) dn(1)] x(2) dn(3) kn show False by simp
  qed
  have da': "distinct (map addr ?l')" using da1 malloc_node_fresh [of l1] by simp
  have dk': "distinct (map (\<lambda>n. key (data n)) ?l')" using dk1 k1 d by auto
  have keep: "\<exists>dn'\<in>set ?l'. pointer_to_node e = Some (addr dn') \<and> key (data dn') = key e"
    if e: "e \<in> set (buckets c ! j)" "j < capacity c" "key e \<noteq> k" for e j
  proof -
    from I e obtain x where x: "x \<in> set ?l" "pointer_to_node e = Some (addr x)" "key (data x) = key e"
      by blast
    with e(3) dn(3) kn have "x \<noteq> dn" by auto
    with x(1) setl1 have "x \<in> set ?l'" by simp
    with x show ?thesis by blast
  qed
  have chains: "hash_function c (key e) mod capacity c = j \<and>
        (\<exists>dn'\<in>set ?l'. pointer_to_node e = Some (addr dn') \<and> key (data dn') = key e)"
    if e: "e \<in> set ((buckets c)[i := ch'] ! j)" "j < capacity c" for e j
  proof (cases "j = i")
    case True
    with e len icap have "e \<in> set ch'" by simp
    with ch' consider "e = node'" | "e \<in> set pre \<union> set post" by auto
    then show ?thesis
    proof cases
      case 1
      then show ?thesis using key' ptr' d i True by simp
    next
      case 2
      then have ein: "e \<in> set (buckets c ! i)" using ch by auto
      from 2 kpre kpost have "key e \<noteq> k" by auto
      from keep [OF ein icap this] I ein icap True show ?thesis by blast
    qed
  next
    case False
    with e len have ein: "e \<in> set (buckets c ! j)" by simp
    with I e(2) have "?h (key e) = j" by blast
    with False i have "key e \<noteq> k" by auto
    from keep [OF ein e(2) this] I ein e(2) show ?thesis by blast
  qed
  have dist: "distinct (map key ((buckets c)[i := ch'] ! j))" if "j < capacity c" for j
    using that I ch'(2) len by (cases "j = i") auto
  have nodes: "key (data n) \<in> key ` set ((buckets c)[i := ch'] ! ?h (key (data n)))"
    if n: "n \<in> set ?l'" for n
  proof (cases "n = ?nn")
    case True
    then show ?thesis using d i icap len ch'(1) key' by (auto simp: image_iff intro: bexI [of _ node'])
  next
    case False
    with n setl1 have nl: "n \<in> set ?l" "n \<noteq> dn" by auto
    with key_inj [OF dk nl(1) dn(1)] dn(3) kn have nk: "key (data n) \<noteq> k" by auto
    from I nl(1) have old: "key (data n) \<in> key ` set (buckets c ! ?h (key (data n)))" by blast
    show ?thesis
    proof (cases "?h (key (data n)) = i")
      case True
      with old ch nk kn have "key (data n) \<in> key ` (set pre \<union> set post)" by auto
      with True icap len ch'(1) show ?thesis by auto
    next
      case False
      with old len show ?thesis by simp
    qed
  qed
  show ?thesis
    unfolding cache_inv_iff
    using I len1 lpos da' dk' chains dist nodes by (simp del: set_append map_append)
qed

lemma inv_unlink:
  assumes inv: "cache_inv c"
    and i: "i = hash_function c k mod capacity c"
    and sc: "scan_chain k (buckets c ! i) = Some (pre, node, post)"
    and dn: "dn \<in> set (index c)" "key (data dn) = k"
    and l1: "set l1 = set (index c) - {dn}" "distinct (map addr l1)"
       "distinct (map (\<lambda>n. key (data n)) l1)" "length l1 = length (index c) - 1"
  shows "cache_inv (c\<lparr>buckets := (buckets c)[i := pre @ post], index := l1,
                      size_cache := u32_dec (size_cache c)\<rparr>)"
proof -
  let ?l = "index c" and ?h = "\<lambda>x. hash_function c x mod capacity c"
  note I = inv [unfolded cache_inv_iff]
  from I have cap: "0 < capacity c" and len: "length (buckets c) = capacity c"
    and da: "distinct (map addr ?l)" and dk: "distinct (map (\<lambda>n. key (data n)) ?l)" by auto
  have icap: "i < capacity c" using cap i by simp
  from scan_chain_Some [OF sc]
  have ch: "buckets c ! i = pre @ node # post" and kn: "key node = k" and kpre: "k \<notin> key ` set pre"
    by auto
  have dch: "distinct (map key (buckets c ! i))" using I icap by blast
  have kpost: "k \<notin> key ` set post" using dch ch kn by auto
  have lpos: "0 < length ?l" using dn(1) by (cases ?l) auto
  then have sz: "u32_dec (size_cache c) = length l1" using I l1(4) by (simp add: u32_dec_def)
  have keep: "\<exists>dn'\<in>set l1. pointer_to_node e = Some (addr dn') \<and> key (data dn') = key e"
    if e: "e \<in> set (buckets c ! j)" "j < capacity c" "key e \<noteq> k" for e j
  proof -
    from I e obtain x where x: "x \<in> set ?l" "pointer_to_node e = Some (addr x)" "key (data x) = key e"
      by blast
    with e(3) dn(2) have "x \<noteq> dn" by auto
    with x(1) l1(1) have "x \<in> set l1" by simp
    with x show ?thesis by blast
  qed
  have chains: "hash_function c (key e) mod capacity c = j \<and>
        (\<exists>dn'\<in>set l1. pointer_to_node e = Some (addr dn') \<and> key (data dn') = key e)"
    if e: "e \<in> set ((buckets c)[i := pre @ post] ! j)" "j < capacity c" for e j
  proof (cases "j = i")
    case True
    with e len icap have 2: "e \<in> set pre \<union> set post" by simp
    then have ein: "e \<in> set (buckets c ! i)" using ch by auto
    from 2 kpre kpost have "key e \<noteq> k" by auto
    from keep [OF ein icap this] I ein icap True show ?thesis by blast
  next
    case False
    with e len have ein: "e \<in> set (buckets c ! j)" by simp
    with I e(2) have "?h (key e) = j" by blast
    with False i have "key e \<noteq> k" by auto
    from keep [OF ein e(2) this] I ein e(2) show ?thesis by blast
  qed
  have dist: "distinct (map key ((buckets c)[i := pre @ post] ! j))" if "j < capacity c" for j
  proof (cases "j = i")
    case True
    then show ?thesis using dch ch len icap by auto
  next
    case False
    then show ?thesis using that I by auto
  qed
  have nodes: "key (data n) \<in> key ` set ((buckets c)[i := pre @ post] ! ?h (key (data n)))"
    if n: "n \<in> set l1" for n
  proof -
    from n l1(1) have nl: "n \<in> set ?l" "n \<noteq> dn" by auto
    with key_inj [OF dk nl(1) dn(1)] dn(2) have nk: "key (data n) \<noteq> k" by auto
    from I nl(1) have old: "key (data n) \<in> key ` set (buckets c ! ?h (key (data n)))" by blast
    show ?thesis
    proof (cases "?h (key (data n)) = i")
      case True
      with old ch nk kn have "key (data n) \<in> key ` (set pre \<union> set post)" by auto
      with True icap len show ?thesis by auto
    next
      case False
      with old len show ?thesis by simp
    qed
  qed
  from I have "length (index c) \<le> capacity c" by simp
  with l1(4) have "length l1 \<le> capacity c" by simp
  then show ?thesis
    unfolding cache_inv_iff
    using I sz l1(2,3) chains dist nodes by simp
qed

lemma inv_keys_index:
  assumes "cache_inv c"
  shows "(\<lambda>n. key (data n)) ` set (index c) = cache_keys c"
proof -
  note I = assms [unfolded cache_inv_iff]
  have sub: "set (buckets c ! j) \<subseteq> set (concat (buckets c))" if "j < capacity c" for j
    using set_nth_concat [of j "buckets c"] that I by simp
  show ?thesis
  proof (intro equalityI subsetI)
    fix x assume "x \<in> (\<lambda>n. key (data n)) ` set (index c)"
    then obtain n where n: "n \<in> set (index c)" "x = key (data n)" by auto
    let ?j = "hash_function c (key (data n)) mod capacity c"
    have "?j < capacity c" using I by simp
    from sub [OF this] I n show "x \<in> cache_keys c" unfolding cache_keys_def by blast
  next
    fix x assume "x \<in> cache_keys c"
    then obtain e where e: "e \<in> set (concat (buckets c))" "x = key e" by (auto simp: cache_keys_def)
    then obtain xs where "xs \<in> set (buckets c)" "e \<in> set xs" by auto
    then obtain j where j: "j < length (buckets c)" "e \<in> set (buckets c ! j)"
      by (metis in_set_conv_nth)
    with I have "\<exists>dn\<in>set (index c). key (data dn) = key e" by (metis (no_types, lifting))
    then obtain dn where "dn \<in> set (index c)" "key (data dn) = key e" by blast
    with e(2) show "x \<in> (\<lambda>n. key (data n)) ` set (index c)" by force
  qed
qed

lemma inv_keys_bucket:
  assumes "cache_inv c"
  shows "k \<in> cache_keys c \<longleftrightarrow> k \<in> key ` set (buckets c ! (hash_function c k mod capacity c))"
proof
  note I = assms [unfolded cache_inv_iff]
  assume "k \<in> cache_keys c"
  with inv_keys_index [OF assms] have "k \<in> (\<lambda>n. key (data n)) ` set (index c)" by simp
  then obtain n where "n \<in> set (index c)" "key (data n) = k" by auto
  with I show "k \<in> key ` set (buckets c ! (hash_function c k mod capacity c))" by blast
next
  note I = assms [unfolded cache_inv_iff]
  assume a: "k \<in> key ` set (buckets c ! (hash_function c k mod capacity c))"
  have "hash_function c k mod capacity c < length (buckets c)" using I by simp
  from set_nth_concat [OF this] a show "k \<in> cache_keys c" unfolding cache_keys_def by blast
qed

lemma inv_insert:
  assumes inv: "cache_inv c"
    and i: "i = hash_function c k mod capacity c"
    and absent: "k \<notin> cache_keys c"
    and room: "size_cache c < capacity c"
  shows "cache_inv (insert_new c i k v)"
proof -
  let ?l = "index c" and ?h = "\<lambda>x. hash_function c x mod capacity c"
  let ?ni = "\<lparr>key = k, val = v, pointer_to_node = None\<rparr>"
  let ?nn = "\<lparr>addr = malloc_node ?l, data = ?ni\<rparr>"
  let ?l' = "?l @ [?nn]"
  let ?e = "?ni\<lparr>pointer_to_node := Some (malloc_node ?l)\<rparr>"
  note I = inv [unfolded cache_inv_iff]
  from I have cap: "0 < capacity c" and len: "length (buckets c) = capacity c"
    and da: "distinct (map addr ?l)" and dk: "distinct (map (\<lambda>n. key (data n)) ?l)" by auto
  have icap: "i < capacity c" using cap i by simp
  have eq: "insert_new c i k v = c\<lparr>buckets := (buckets c)[i := ?e # buckets c ! i],
               index := ?l', size_cache := u32_inc (size_cache c)\<rparr>"
    by (simp add: insert_new_def dll_add_last Let_def)
  have kb: "k \<notin> key ` set (buckets c ! i)" using absent inv_keys_bucket [OF inv] i by simp
  have kl: "k \<notin> (\<lambda>n. key (data n)) ` set ?l" using absent inv_keys_index [OF inv] by simp
  have sz: "u32_inc (size_cache c) = length ?l'" using I room by (simp add: u32_inc_def)
  have da': "distinct (map addr ?l')" using da malloc_node_fresh [of ?l] by simp
  have dk': "distinct (map (\<lambda>n. key (data n)) ?l')" using dk kl by simp
  have chains: "hash_function c (key e) mod capacity c = j \<and>
        (\<exists>dn'\<in>set ?l'. pointer_to_node e = Some (addr dn') \<and> key (data dn') = key e)"
    if e: "e \<in> set ((buckets c)[i := ?e # buckets c ! i] ! j)" "j < capacity c" for e j
  proof (cases "j = i \<and> e = ?e")
    case True
    then show ?thesis using i by simp
  next
    case False
    with e len icap have "e \<in> set (buckets c ! j)" by (cases "j = i") auto
    with I e(2) show ?thesis by (metis (no_types, lifting) Un_iff set_append)
  qed
  have dist: "distinct (map key ((buckets c)[i := ?e # buckets c ! i] ! j))" if "j < capacity c" for j
    using that I kb len by (cases "j = i") auto
  have nodes: "key (data n) \<in> key ` set ((buckets c)[i := ?e # buckets c ! i] ! ?h (key (data n)))"
    if n: "n \<in> set ?l'" for n
  proof (cases "n = ?nn")
    case True
    then show ?thesis using i icap len by simp
  next
    case False
    with n have nl: "n \<in> set ?l" by auto
    from I nl have old: "key (data n) \<in> key ` set (buckets c ! ?h (key (data n)))" by blast
    then show ?thesis using len icap by (cases "?h (key (data n)) = i") auto
  qed
  have "length ?l' \<le> capacity c" using I room by simp
  then show ?thesis
    unfolding eq cache_inv_iff
    using I sz da' dk' chains dist nodes by (simp del: set_append map_append)
qed

lemma scan_chain_lookup:
  "map_of (map (\<lambda>e. (key e, val e)) ch) k =
     (case scan_chain k ch of None \<Rightarrow> None | Some (pre, n, post) \<Rightarrow> Some (val n))"
  by (induction ch) (auto split: option.splits)

lemma lookup_dom: "map_of (map (\<lambda>e. (key e, val e)) ch) k = None \<longleftrightarrow> k \<notin> key ` set ch"
  by (induction ch) auto

lemma cache_lookup_dom:
  assumes "cache_inv c"
  shows "cache_lookup c k = None \<longleftrightarrow> k \<notin> cache_keys c"
  unfolding cache_lookup_def lookup_dom inv_keys_bucket [OF assms] ..

lemma present_facts:
  assumes inv: "cache_inv c" and k: "k \<in> cache_keys c"
  obtains pre node post dn where
    "scan_chain k (buckets c ! (hash_function c k mod capacity c)) = Some (pre, node, post)"
    "pointer_to_node node = Some (addr dn)" "deref (index c) (addr dn) = Some dn"
    "dn \<in> set (index c)" "key (data dn) = k" "key node = k"
    "cache_lookup c k = Some (val node)"
proof -
  let ?i = "hash_function c k mod capacity c"
  note I = inv [unfolded cache_inv_iff]
  have icap: "?i < capacity c" using I by simp
  from k inv_keys_bucket [OF inv] have "k \<in> key ` set (buckets c ! ?i)" by simp
  from scan_chain_present [OF this] obtain pre node post
    where sc: "scan_chain k (buckets c ! ?i) = Some (pre, node, post)" by blast
  from scan_chain_Some [OF sc] have ch: "buckets c ! ?i = pre @ node # post" "key node = k" by auto
  then have "node \<in> set (buckets c ! ?i)" by simp
  with I icap obtain dn where dn: "dn \<in> set (index c)" "pointer_to_node node = Some (addr dn)"
      "key (data dn) = key node" by blast
  from I dn(1) have "deref (index c) (addr dn) = Some dn" by (simp add: deref_iff)
  moreover have "cache_lookup c k = Some (val node)"
    by (simp add: cache_lookup_def scan_chain_lookup sc)
  ultimately show thesis using that sc dn ch(2) by simp
qed

lemma remove_node_order:
  assumes "distinct (map addr l)" "distinct (map (\<lambda>n. key (data n)) l)" "dn \<in> set l"
  shows "map (\<lambda>n. key (data n)) (dll_remove_node l (addr dn)) = removeAll (key (data dn)) (map (\<lambda>n. key (data n)) l)"
proof -
  have "filter (\<lambda>n. addr n \<noteq> addr dn) l = filter (\<lambda>n. key (data n) \<noteq> key (data dn)) l"
    by (rule filter_cong) (use assms in \<open>auto dest: addr_inj key_inj\<close>)
  then show ?thesis
    by (simp add: dll_remove_node_def removeAll_filter_not_eq filter_map comp_def eq_commute)
qed

lemma lookup_other_chain:
  assumes "key node = k" "key node' = k" "x \<noteq> k"
  shows "map_of (map (\<lambda>e. (key e, val e)) (node' # pre @ post)) x = map_of (map (\<lambda>e. (key e, val e)) (pre @ node # post)) x"
    and "map_of (map (\<lambda>e. (key e, val e)) (pre @ node' # post)) x = map_of (map (\<lambda>e. (key e, val e)) (pre @ node # post)) x"
    and "map_of (map (\<lambda>e. (key e, val e)) (pre @ post)) x = map_of (map (\<lambda>e. (key e, val e)) (pre @ node # post)) x"
  using assms by (simp_all add: map_add_def split: option.splits)

lemma lru_cache_get_inv:
  assumes inv: "cache_inv c"
  shows "\<exists>c'. lru_cache_get c k = Some (cache_lookup c k, c') \<and> cache_inv c' \<and>
     capacity c' = capacity c \<and> hash_function c' = hash_function c \<and>
     size_cache c' = size_cache c \<and> cache_lookup c' = cache_lookup c \<and>
     lru_order c' = (if k \<in> cache_keys c then removeAll k (lru_order c) @ [k] else lru_order c)"
proof (cases "k \<in> cache_keys c")
  case False
  note I = inv [unfolded cache_inv_iff]
  from I False have "lru_cache_get c k = Some (None, c)" by (intro lru_cache_get_miss) auto
  moreover have "cache_lookup c k = None" using False cache_lookup_dom [OF inv] by simp
  ultimately show ?thesis using False inv by simp
next
  case True
  let ?i = "hash_function c k mod capacity c"
  note I = inv [unfolded cache_inv_iff]
  have icap: "?i < capacity c" using I by simp
  from present_facts [OF inv True] obtain pre node post dn where
    f: "scan_chain k (buckets c ! ?i) = Some (pre, node, post)"
    "pointer_to_node node = Some (addr dn)" "deref (index c) (addr dn) = Some dn"
    "dn \<in> set (index c)" "key (data dn) = k" "key node = k"
    "cache_lookup c k = Some (val node)" by blast
  from scan_chain_Some [OF f(1)] have ch: "buckets c ! ?i = pre @ node # post" by simp
  define l1 where "l1 = dll_remove_node (index c) (addr dn)"
  define node2 where "node2 = node\<lparr>pointer_to_node := Some (malloc_node l1)\<rparr>"
  define c' where "c' = c\<lparr>buckets := (buckets c)[?i := node2 # pre @ post],
        index := l1 @ [\<lparr>addr = malloc_node l1, data = node\<rparr>]\<rparr>"
  have get: "lru_cache_get c k = Some (Some (val node), c')"
    using I icap f by (simp add: lru_cache_get_def Let_def dll_add_last c'_def node2_def l1_def)
  have dch: "distinct (map key (buckets c ! ?i))" using I icap by blast
  have "cache_inv c'" unfolding c'_def
  proof (rule inv_promote [OF inv refl f(1) f(2) l1_def])
    show "key node2 = k" "pointer_to_node node2 = Some (malloc_node l1)" "key node = k"
      using f(6) by (simp_all add: node2_def)
    show "set (node2 # pre @ post) = insert node2 (set pre \<union> set post)" by simp
    show "distinct (map key (node2 # pre @ post))" using dch ch by (auto simp: node2_def)
  qed
  moreover have "cache_lookup c' x = cache_lookup c x" for x
  proof (cases "hash_function c x mod capacity c = ?i")
    case False
    then show ?thesis using I by (simp add: cache_lookup_def c'_def)
  next
    case same: True
    show ?thesis
    proof (cases "x = k")
      case True
      then show ?thesis using I icap f(6,7) by (simp add: cache_lookup_def c'_def node2_def)
    next
      case False
      have "key node2 = k" using f(6) by (simp add: node2_def)
      from lookup_other_chain(1) [OF f(6) this False, of pre post] same I icap ch
      show ?thesis by (simp add: cache_lookup_def c'_def)
    qed
  qed
  moreover have "lru_order c' = removeAll k (lru_order c) @ [k]"
    using I f(4,5,6) remove_node_order [of "index c" dn]
    by (simp add: lru_order_def c'_def l1_def)
  ultimately show ?thesis using get f(7) True by (auto simp: c'_def)
qed

lemma inv_size: "cache_inv c \<Longrightarrow> size_cache c = length (lru_order c)"
  by (simp add: cache_inv_iff lru_order_def)

lemma inv_order_distinct: "cache_inv c \<Longrightarrow> distinct (lru_order c)"
  by (simp add: cache_inv_iff lru_order_def)

lemma inv_order_keys: "cache_inv c \<Longrightarrow> set (lru_order c) = cache_keys c"
  using inv_keys_index [of c] by (simp add: lru_order_def)

lemma unlink_lookup:
  assumes inv: "cache_inv c"
    and sc: "scan_chain k (buckets c ! (hash_function c k mod capacity c)) = Some (pre, node, post)"
    and c': "buckets c' = (buckets c)[hash_function c k mod capacity c := pre @ post]"
      "capacity c' = capacity c" "hash_function c' = hash_function c"
  shows "cache_lookup c' = (cache_lookup c)(k := None)"
proof
  fix x
  let ?i = "hash_function c k mod capacity c"
  note I = inv [unfolded cache_inv_iff]
  have icap: "?i < capacity c" using I by simp
  from scan_chain_Some [OF sc] have ch: "buckets c ! ?i = pre @ node # post" "key node = k"
    "k \<notin> key ` set pre" by auto
  have dch: "distinct (map key (buckets c ! ?i))" using I icap by blast
  with ch have kpost: "k \<notin> key ` set post" by auto
  show "cache_lookup c' x = ((cache_lookup c)(k := None)) x"
  proof (cases "hash_function c x mod capacity c = ?i")
    case False
    then have "x \<noteq> k" by auto
    with False show ?thesis using I c' by (simp add: cache_lookup_def)
  next
    case same: True
    show ?thesis
    proof (cases "x = k")
      case True
      have "map_of (map (\<lambda>e. (key e, val e)) (pre @ post)) k = None"
        using ch(3) kpost by (simp add: lookup_dom image_Un)
      then show ?thesis using True I icap c' by (simp add: cache_lookup_def)
    next
      case False
      from lookup_other_chain(3) [OF ch(2) ch(2) False, of pre post] same I icap ch(1) c' False
      show ?thesis by (simp add: cache_lookup_def)
    qed
  qed
qed

lemma lru_cache_remove_inv:
  assumes inv: "cache_inv c"
  shows "\<exists>c'. lru_cache_remove c k = Some c' \<and> cache_inv c' \<and>
     capacity c' = capacity c \<and> hash_function c' = hash_function c \<and>
     cache_lookup c' = (cache_lookup c)(k := None) \<and>
     lru_order c' = removeAll k (lru_order c)"
proof (cases "k \<in> cache_keys c")
  case False
  note I = inv [unfolded cache_inv_iff]
  let ?i = "hash_function c k mod capacity c"
  have icap: "?i < capacity c" using I by simp
  from False inv_keys_bucket [OF inv] have "k \<notin> key ` set (buckets c ! ?i)" by simp
  then have "scan_chain k (buckets c ! ?i) = None" by (rule scan_chain_absent)
  then have "lru_cache_remove c k = Some c" using I icap by (simp add: lru_cache_remove_def Let_def)
  moreover have "cache_lookup c k = None" using False cache_lookup_dom [OF inv] by simp
  then have "(cache_lookup c)(k := None) = cache_lookup c" by (auto simp: fun_eq_iff)
  moreover have "removeAll k (lru_order c) = lru_order c"
    using False inv_order_keys [OF inv] by simp
  ultimately show ?thesis using inv by simp
next
  case True
  let ?i = "hash_function c k mod capacity c"
  note I = inv [unfolded cache_inv_iff]
  have icap: "?i < capacity c" using I by simp
  from present_facts [OF inv True] obtain pre node post dn where
    f: "scan_chain k (buckets c ! ?i) = Some (pre, node, post)"
    "pointer_to_node node = Some (addr dn)" "deref (index c) (addr dn) = Some dn"
    "dn \<in> set (index c)" "key (data dn) = k" "key node = k"
    "cache_lookup c k = Some (val node)" by blast
  define l1 where "l1 = dll_remove_node (index c) (addr dn)"
  define c' where "c' = c\<lparr>buckets := (buckets c)[?i := pre @ post], index := l1,
        size_cache := u32_dec (size_cache c)\<rparr>"
  have rm: "lru_cache_remove c k = Some c'"
    using I icap f by (simp add: lru_cache_remove_def Let_def c'_def l1_def)
  have setl1: "set l1 = set (index c) - {dn}"
    using I f(4) unfolding l1_def dll_remove_node_def by (auto dest: addr_inj)
  have da1: "distinct (map addr l1)" and dk1: "distinct (map (\<lambda>n. key (data n)) l1)"
    unfolding l1_def dll_remove_node_def using I by (simp_all add: distinct_map_filter)
  have len1: "length l1 = length (index c) - 1"
  proof -
    have "distinct l1" "distinct (index c)" using da1 I by (auto simp: distinct_map)
    then have "length l1 = card (set l1)" "length (index c) = card (set (index c))"
      by (simp_all add: distinct_card)
    with setl1 f(4) show ?thesis by simp
  qed
  have "cache_inv c'" unfolding c'_def
    by (rule inv_unlink [OF inv refl f(1) f(4) f(5) setl1 da1 dk1 len1])
  moreover have "cache_lookup c' = (cache_lookup c)(k := None)"
    by (rule unlink_lookup [OF inv f(1)]) (simp_all add: c'_def)
  moreover have "lru_order c' = removeAll k (lru_order c)"
    using I f(4,5) remove_node_order [of "index c" dn] by (simp add: lru_order_def c'_def l1_def)
  ultimately show ?thesis using rm by (simp add: c'_def)
qed

lemma evict_full:
  assumes inv: "cache_inv c" and full: "size_cache c = capacity c"
  shows "\<exists>c2. evict_if_full c = Some (Some (hd (lru_order c)), c2) \<and> cache_inv c2 \<and>
     capacity c2 = capacity c \<and> hash_function c2 = hash_function c \<and>
     cache_lookup c2 = (cache_lookup c)(hd (lru_order c) := None) \<and>
     lru_order c2 = tl (lru_order c)"
proof -
  note I = inv [unfolded cache_inv_iff]
  let ?l = "index c"
  from I full have ne: "?l \<noteq> []" by auto
  define dn where "dn = hd ?l"
  define ek where "ek = key (data dn)"
  have hdo: "hd (lru_order c) = ek" using ne by (simp add: lru_order_def ek_def dn_def hd_map)
  have dn: "dn \<in> set ?l" using ne by (simp add: dn_def)
  have rm: "dll_remove_nth_node ?l 0 = (Some dn, tl ?l)"
    using ne by (cases ?l) (simp_all add: dll_remove_nth_node_def dn_def)
  let ?j = "hash_function c ek mod capacity c"
  have jcap: "?j < capacity c" using I by simp
  have "ek \<in> cache_keys c" using inv_keys_index [OF inv] dn by (auto simp: ek_def)
  from present_facts [OF inv this] obtain pre node post where
    sc: "scan_chain ek (buckets c ! ?j) = Some (pre, node, post)" by blast
  define c2 where "c2 = c\<lparr>buckets := (buckets c)[?j := pre @ post], index := tl ?l,
        size_cache := u32_dec (size_cache c)\<rparr>"
  have ev: "evict_if_full c = Some (Some ek, c2)"
    using I full jcap sc rm by (simp add: evict_if_full_def Let_def c2_def ek_def)
  have dl: "distinct ?l" using I by (auto simp: distinct_map)
  have setl1: "set (tl ?l) = set ?l - {dn}" using ne dl by (cases ?l) (auto simp: dn_def)
  have da1: "distinct (map addr (tl ?l))" and dk1: "distinct (map (\<lambda>n. key (data n)) (tl ?l))"
    using I ne by (cases ?l; simp)+
  have "cache_inv c2" unfolding c2_def
    by (rule inv_unlink [OF inv refl sc dn _ setl1 da1 dk1]) (simp_all add: ek_def)
  moreover have "cache_lookup c2 = (cache_lookup c)(ek := None)"
    by (rule unlink_lookup [OF inv sc]) (simp_all add: c2_def)
  moreover have "lru_order c2 = tl (lru_order c)" by (simp add: lru_order_def c2_def map_tl)
  ultimately show ?thesis using ev hdo by (simp add: c2_def)
qed

lemma insert_new_props:
  assumes inv: "cache_inv c" and absent: "k \<notin> cache_keys c"
  shows "capacity (insert_new c (hash_function c k mod capacity c) k v) = capacity c"
    and "hash_function (insert_new c (hash_function c k mod capacity c) k v) = hash_function c"
    and "cache_lookup (insert_new c (hash_function c k mod capacity c) k v) = (cache_lookup c)(k \<mapsto> v)"
    and "lru_order (insert_new c (hash_function c k mod capacity c) k v) = lru_order c @ [k]"
proof -
  let ?i = "hash_function c k mod capacity c"
  note I = inv [unfolded cache_inv_iff]
  have icap: "?i < capacity c" using I by simp
  show "capacity (insert_new c ?i k v) = capacity c" "hash_function (insert_new c ?i k v) = hash_function c"
    by (simp_all add: insert_new_def Let_def)
  show "lru_order (insert_new c ?i k v) = lru_order c @ [k]"
    by (simp add: insert_new_def Let_def dll_add_last lru_order_def)
  show "cache_lookup (insert_new c ?i k v) = (cache_lookup c)(k \<mapsto> v)"
  proof
    fix x
    show "cache_lookup (insert_new c ?i k v) x = ((cache_lookup c)(k \<mapsto> v)) x"
      using I icap by (cases "hash_function c x mod capacity c = ?i")
        (auto simp: cache_lookup_def insert_new_def Let_def)
  qed
qed

lemma lru_cache_put_inv:
  fixes c :: lru_cache and k :: string
  assumes inv: "cache_inv c"
  defines "ev \<equiv> (if k \<notin> cache_keys c \<and> size_cache c = capacity c then Some (hd (lru_order c)) else None)"
  shows "\<exists>c'. lru_cache_put c k v = Some (True, ev, c') \<and> cache_inv c' \<and>
     capacity c' = capacity c \<and> hash_function c' = hash_function c \<and>
     cache_lookup c' = (\<lambda>x. if x = k then Some v else if Some x = ev then None else cache_lookup c x) \<and>
     lru_order c' = (if k \<in> cache_keys c then removeAll k (lru_order c) @ [k]
                     else if size_cache c = capacity c then tl (lru_order c) @ [k]
                     else lru_order c @ [k])"
proof (cases "k \<in> cache_keys c")
  case True
  let ?i = "hash_function c k mod capacity c"
  note I = inv [unfolded cache_inv_iff]
  have icap: "?i < capacity c" using I by simp
  from I have "capacity c \<le> 2147483648" by simp
  with icap have i31: "\<not> ?i \<ge> 2147483648" by linarith
  from present_facts [OF inv True] obtain pre node post dn where
    f: "scan_chain k (buckets c ! ?i) = Some (pre, node, post)"
    "pointer_to_node node = Some (addr dn)" "deref (index c) (addr dn) = Some dn"
    "dn \<in> set (index c)" "key (data dn) = k" "key node = k"
    "cache_lookup c k = Some (val node)" by blast
  from scan_chain_Some [OF f(1)] have ch: "buckets c ! ?i = pre @ node # post" by simp
  define l1 where "l1 = dll_remove_node (index c) (addr dn)"
  define node2 where "node2 = node\<lparr>val := v, pointer_to_node := Some (malloc_node l1)\<rparr>"
  define c' where "c' = c\<lparr>buckets := (buckets c)[?i := pre @ node2 # post],
        index := l1 @ [\<lparr>addr = malloc_node l1, data = node\<lparr>val := v\<rparr>\<rparr>]\<rparr>"
  have put: "lru_cache_put c k v = Some (True, None, c')"
    using I icap i31 put_scan_present [OF f(1,2,3,5), of v]
    by (simp add: lru_cache_put_def Let_def c'_def node2_def l1_def)
  have dch: "distinct (map key (buckets c ! ?i))" using I icap by blast
  have "cache_inv c'" unfolding c'_def
  proof (rule inv_promote [OF inv refl f(1) f(2) l1_def])
    show "key node2 = k" "pointer_to_node node2 = Some (malloc_node l1)" "key (node\<lparr>val := v\<rparr>) = k"
      using f(6) by (simp_all add: node2_def)
    show "set (pre @ node2 # post) = insert node2 (set pre \<union> set post)" by simp
    show "distinct (map key (pre @ node2 # post))" using dch ch by (auto simp: node2_def)
  qed
  moreover have "cache_lookup c' x = (if x = k then Some v else cache_lookup c x)" for x
  proof (cases "hash_function c x mod capacity c = ?i")
    case False
    then have "x \<noteq> k" by auto
    with False show ?thesis using I by (simp add: cache_lookup_def c'_def)
  next
    case same: True
    have k2: "key node2 = k" using f(6) by (simp add: node2_def)
    show ?thesis
    proof (cases "x = k")
      case True
      from scan_chain_Some [OF f(1)] have "k \<notin> key ` set pre" by simp
      then have "map_of (map (\<lambda>e. (key e, val e)) pre) k = None" by (simp add: lookup_dom)
      then show ?thesis using True I icap k2
        by (simp add: cache_lookup_def c'_def map_add_def node2_def)
    next
      case False
      from lookup_other_chain(2) [OF f(6) k2 False, of pre post] same I icap ch False
      show ?thesis by (simp add: cache_lookup_def c'_def)
    qed
  qed
  moreover have "lru_order c' = removeAll k (lru_order c) @ [k]"
    using I f(4,5,6) remove_node_order [of "index c" dn]
    by (simp add: lru_order_def c'_def l1_def)
  ultimately show ?thesis using put True by (auto simp: c'_def ev_def)
next
  case False
  let ?i = "hash_function c k mod capacity c"
  note I = inv [unfolded cache_inv_iff]
  have icap: "?i < capacity c" using I by simp
  from I have "capacity c \<le> 2147483648" by simp
  with icap have i31: "\<not> ?i \<ge> 2147483648" by linarith
  from False inv_keys_bucket [OF inv] have "k \<notin> key ` set (buckets c ! ?i)" by simp
  then have ps: "put_scan (index c) k v (buckets c ! ?i) = Some (Scanned (buckets c ! ?i) False)"
    by (rule put_scan_absent)
  have same: "c\<lparr>buckets := (buckets c)[?i := buckets c ! ?i]\<rparr> = c" by simp
  show ?thesis
  proof (cases "size_cache c = capacity c")
    case full: True
    from evict_full [OF inv full] obtain c2 where
      c2: "evict_if_full c = Some (Some (hd (lru_order c)), c2)" "cache_inv c2"
       "capacity c2 = capacity c" "hash_function c2 = hash_function c"
       "cache_lookup c2 = (cache_lookup c)(hd (lru_order c) := None)"
       "lru_order c2 = tl (lru_order c)" by blast
    have put: "lru_cache_put c k v = Some (True, Some (hd (lru_order c)), insert_new c2 ?i k v)"
      using I icap i31 ps same c2(1) by (simp add: lru_cache_put_def Let_def)
    have "cache_keys c2 = set (tl (lru_order c))" using inv_order_keys [OF c2(2)] c2(6) by simp
    also have "\<dots> \<subseteq> set (lru_order c)" by (cases "lru_order c") auto
    finally have abs2: "k \<notin> cache_keys c2" using False inv_order_keys [OF inv] by auto
    have ne: "lru_order c \<noteq> []" using I full by (auto simp: lru_order_def)
    have "size_cache c2 = length (tl (lru_order c))" using inv_size [OF c2(2)] c2(6) by simp
    also have "\<dots> < capacity c2" using inv_size [OF inv] full ne c2(3) I by simp
    finally have room: "size_cache c2 < capacity c2" .
    have i2: "?i = hash_function c2 k mod capacity c2" using c2(3,4) by simp
    have "cache_inv (insert_new c2 ?i k v)" by (rule inv_insert [OF c2(2) i2 abs2 room])
    moreover note insert_new_props [OF c2(2) abs2, of v, folded i2]
    moreover have "hd (lru_order c) \<noteq> k"
      using ne False inv_order_keys [OF inv] hd_in_set [OF ne] by auto
    ultimately show ?thesis using put False full c2(3,4,5,6)
      by (auto simp: ev_def fun_eq_iff)
  next
    case notfull: False
    with I have room: "size_cache c < capacity c" by simp
    then have "evict_if_full c = Some (None, c)" by (simp add: evict_if_full_def)
    then have put: "lru_cache_put c k v = Some (True, None, insert_new c ?i k v)"
      using I icap i31 ps same by (simp add: lru_cache_put_def Let_def)
    have "cache_inv (insert_new c ?i k v)" by (rule inv_insert [OF inv refl False room])
    moreover note insert_new_props [OF inv False, of v]
    ultimately show ?thesis using put False notfull by (auto simp: ev_def fun_eq_iff)
  qed
qed

lemma init_lru_cache_inv:
  assumes "0 < cap" and "cap \<le> 2147483648"
  shows "cache_inv (init_lru_cache h cap)"
  using assms by (simp add: cache_inv_iff init_lru_cache_def)

lemma apply_op_inv:
  assumes "cache_inv c"
  shows "\<exists>c'. apply_op c x = Some c' \<and> cache_inv c' \<and> capacity c' = capacity c"
proof (cases x)
  case (Put k v)
  from lru_cache_put_inv [OF assms, of k v] show ?thesis unfolding Put by auto
next
  case (Get k)
  from lru_cache_get_inv [OF assms, of k] show ?thesis unfolding Get by auto
next
  case (Remove k)
  from lru_cache_remove_inv [OF assms, of k] show ?thesis unfolding Remove by auto
qed

lemma run_ops_inv:
  assumes "cache_inv c"
  shows "\<exists>c'. run_ops c xs = Some c' \<and> cache_inv c' \<and> capacity c' = capacity c"
  using assms
proof (induction xs arbitrary: c)
  case Nil
  then show ?case by simp
next
  case (Cons x xs)
  from apply_op_inv [OF Cons.prems, of x] obtain c1
    where c1: "apply_op c x = Some c1" "cache_inv c1" "capacity c1 = capacity c" by blast
  from Cons.IH [OF c1(2)] c1 show ?case by auto
qed

lemma node_of_entry:
  assumes inv: "cache_inv c" and e: "e \<in> set (concat (buckets c))"
  shows "node_of c e \<in> set (index c) \<and> key (data (node_of c e)) = key e \<and>
         pointer_to_node e = Some (addr (node_of c e)) \<and>
         e \<in> set (buckets c ! (hash_function c (key e) mod capacity c))"
proof -
  note I = inv [unfolded cache_inv_iff]
  from e obtain xs where "xs \<in> set (buckets c)" "e \<in> set xs" by auto
  then obtain j where j: "j < length (buckets c)" "e \<in> set (buckets c ! j)"
    by (metis in_set_conv_nth)
  with I have hj: "hash_function c (key e) mod capacity c = j"
    and "\<exists>dn\<in>set (index c). pointer_to_node e = Some (addr dn) \<and> key (data dn) = key e"
    by (metis (no_types, lifting))+
  then obtain dn where dn: "dn \<in> set (index c)" "pointer_to_node e = Some (addr dn)"
    "key (data dn) = key e" by blast
  from I dn(1) have "deref (index c) (addr dn) = Some dn" by (simp add: deref_iff)
  with dn have "node_of c e = dn" by (simp add: node_of_def)
  with dn hj j show ?thesis by simp
qed

lemma cache_inv_bij:
  assumes inv: "cache_inv c"
  shows "bij_betw (node_of c) (set (concat (buckets c))) (set (index c))"
  unfolding bij_betw_def
proof
  note I = inv [unfolded cache_inv_iff]
  show "inj_on (node_of c) (set (concat (buckets c)))"
  proof (rule inj_onI)
    fix e1 e2
    assume e: "e1 \<in> set (concat (buckets c))" "e2 \<in> set (concat (buckets c))"
      and eq: "node_of c e1 = node_of c e2"
    from node_of_entry [OF inv e(1)] node_of_entry [OF inv e(2)] eq
    have k: "key e1 = key e2" and m: "e1 \<in> set (buckets c ! (hash_function c (key e1) mod capacity c))"
      "e2 \<in> set (buckets c ! (hash_function c (key e1) mod capacity c))" by auto
    have "hash_function c (key e1) mod capacity c < capacity c" using I by simp
    with I have "distinct (map key (buckets c ! (hash_function c (key e1) mod capacity c)))" by blast
    then have "inj_on key (set (buckets c ! (hash_function c (key e1) mod capacity c)))"
      by (simp add: distinct_map)
    from inj_onD [OF this k m] show "e1 = e2" .
  qed
  show "node_of c ` set (concat (buckets c)) = set (index c)"
  proof (intro equalityI subsetI)
    fix n assume "n \<in> node_of c ` set (concat (buckets c))"
    then show "n \<in> set (index c)" using node_of_entry [OF inv] by auto
  next
    fix n assume n: "n \<in> set (index c)"
    let ?j = "hash_function c (key (data n)) mod capacity c"
    from I n have "key (data n) \<in> key ` set (buckets c ! ?j)" by blast
    then obtain e where e: "e \<in> set (buckets c ! ?j)" "key e = key (data n)" by auto
    have "?j < length (buckets c)" using I by simp
    from set_nth_concat [OF this] e(1) have ec: "e \<in> set (concat (buckets c))" by blast
    from node_of_entry [OF inv ec] e(2) have "node_of c e \<in> set (index c)"
      "key (data (node_of c e)) = key (data n)" by auto
    with I n have "node_of c e = n" by (auto dest: key_inj)
    with ec show "n \<in> node_of c ` set (concat (buckets c))" by blast
  qed
qed

lemma put_full:
  assumes inv: "cache_inv c" and full: "size_cache c = capacity c" and absent: "k \<notin> cache_keys c"
  shows "\<exists>c'. lru_cache_put c k v = Some (True, Some (hd (lru_order c)), c') \<and>
           hd (lru_order c) \<in> cache_keys c \<and>
           cache_keys c' = insert k (cache_keys c - {hd (lru_order c)}) \<and>
           lru_order c' = tl (lru_order c) @ [k] \<and>
           cache_lookup c' k = Some v \<and>
           size_cache c' = capacity c' \<and> capacity c' = capacity c \<and> cache_inv c'"
proof -
  from lru_cache_put_inv [OF inv, of k v] full absent obtain c' where
    c': "lru_cache_put c k v = Some (True, Some (hd (lru_order c)), c')" "cache_inv c'"
      "capacity c' = capacity c" "cache_lookup c' k = Some v"
      "lru_order c' = tl (lru_order c) @ [k]" by auto
  have ne: "lru_order c \<noteq> []" using inv full by (auto simp: cache_inv_iff lru_order_def)
  then have hd: "hd (lru_order c) \<in> cache_keys c" using inv_order_keys [OF inv] hd_in_set by blast
  have "set (tl (lru_order c)) = set (lru_order c) - {hd (lru_order c)}"
    using inv_order_distinct [OF inv] ne by (cases "lru_order c") auto
  then have keys: "cache_keys c' = insert k (cache_keys c - {hd (lru_order c)})"
    using inv_order_keys [OF c'(2)] inv_order_keys [OF inv] c'(5) by auto
  have "size_cache c' = length (lru_order c)" using inv_size [OF c'(2)] c'(5) ne by simp
  then have "size_cache c' = capacity c'" using inv_size [OF inv] full c'(3) by simp
  with c' hd keys show ?thesis by simp
qed

lemma put_existing:
  assumes inv: "cache_inv c" and present: "k \<in> cache_keys c"
  shows "\<exists>c'. lru_cache_put c k v2 = Some (True, None, c') \<and>
           (\<exists>c''. lru_cache_get c' k = Some (Some v2, c'')) \<and>
           lru_order c' = removeAll k (lru_order c) @ [k] \<and>
           cache_keys c' = cache_keys c \<and>
           size_cache c' = size_cache c \<and> cache_inv c'"
proof -
  from lru_cache_put_inv [OF inv, of k v2] present obtain c' where
    c': "lru_cache_put c k v2 = Some (True, None, c')" "cache_inv c'"
      "capacity c' = capacity c" "cache_lookup c' k = Some v2"
      "lru_order c' = removeAll k (lru_order c) @ [k]" by auto
  from lru_cache_get_inv [OF c'(2), of k] c'(4)
  have get: "\<exists>c''. lru_cache_get c' k = Some (Some v2, c'')" by auto
  have keys: "cache_keys c' = cache_keys c"
    using inv_order_keys [OF c'(2)] inv_order_keys [OF inv] c'(5) present by auto
  have "length (removeAll k (lru_order c)) = length (lru_order c) - 1"
    using inv_order_distinct [OF inv] present inv_order_keys [OF inv]
    by (simp add: distinct_remove1_removeAll [symmetric] length_remove1)
  moreover have "lru_order c \<noteq> []" using present inv_order_keys [OF inv] by auto
  ultimately have "size_cache c' = size_cache c"
    using inv_size [OF c'(2)] inv_size [OF inv] c'(5) by (cases "lru_order c") auto
  with c' get keys show ?thesis by simp
qed

lemma example_cache_run:
  "run_ops (init_lru_cache length 2) [Put ''a'' ''1'', Put ''bb'' ''2''] = Some example_cache"
  by (simp add: example_cache_def init_lru_cache_def lru_cache_put_def evict_if_full_def
      insert_new_def dll_add_nth_node_def malloc_node_def u32_inc_def Let_def numeral_2_eq_2)

lemma example_cache_inv: "cache_inv example_cache"
  using run_ops_inv [OF init_lru_cache_inv, of 2 length "[Put ''a'' ''1'', Put ''bb'' ''2'']"]
  by (simp only: example_cache_run) simp

text \<open>
  From \<open>init_lru_cache\<close> with a capacity between 1 and \<open>2^31\<close>, every sequence of \<open>put\<close>,
  \<open>get\<close> and \<open>remove\<close> runs without undefined behaviour, and after each operation (after
  every prefix \<open>take n ops\<close> of the sequence) the size is at most the capacity, the map
  from an entry to the node it points to is a bijection between the entries of the
  chains and the nodes of the order list, every entry points to the node that carries
  the entry's own key, and the order list holds every key of the cache once.
\<close>

lemma cache_invariant_bounded:
  assumes "0 < cap" and "cap \<le> 2147483648"
  shows "\<exists>c. run_ops (init_lru_cache h cap) (take n ops) = Some c \<and>
           size_cache c \<le> capacity c \<and>
           bij_betw (node_of c) (set (concat (buckets c))) (set (index c)) \<and>
           (\<forall>e \<in> set (concat (buckets c)).
              pointer_to_node e = Some (addr (node_of c e)) \<and> key (data (node_of c e)) = key e) \<and>
           distinct (lru_order c) \<and> set (lru_order c) = cache_keys c \<and>
           cache_inv c"
proof -
  from run_ops_inv [OF init_lru_cache_inv [OF assms], of h "take n ops"]
  obtain c where c: "run_ops (init_lru_cache h cap) (take n ops) = Some c" "cache_inv c" by blast
  from c(2) have "size_cache c \<le> capacity c" by (simp add: cache_inv_iff)
  with c cache_inv_bij [OF c(2)] node_of_entry [OF c(2)] inv_order_distinct [OF c(2)]
    inv_order_keys [OF c(2)]
  show ?thesis by auto
qed

section \<open>The claims about the cache\<close>

text \<open>
  Claim C10. A lookup of a key that the cache does not hold returns \<open>NULL\<close> and leaves
  the cache as it was: the chains, the order list and the size are the same. This holds
  for every cache with a positive capacity whose bucket array has \<open>capacity\<close> slots.
\<close>

theorem lru_cache_get_absent:
  assumes "0 < capacity c" and "length (buckets c) = capacity c"
    and "k \<notin> cache_keys c"
  shows "lru_cache_get c k = Some (None, c)"
  using assms by (rule lru_cache_get_miss)

text \<open>
  An instance: a cache of two buckets, hashed by the length of the key, that holds the
  key \<open>a\<close>; the key \<open>bb\<close> is looked up.
\<close>

theorem lru_cache_get_absent_witness:
  "lru_cache_get
     \<lparr>buckets = [[], [\<lparr>key = ''a'', val = ''1'', pointer_to_node = Some 1\<rparr>]],
      size_cache = 1, capacity = 2, hash_function = length,
      index = [\<lparr>addr = 1, data = \<lparr>key = ''a'', val = ''1'', pointer_to_node = None\<rparr>\<rparr>]\<rparr> ''bb''
   = Some (None,
     \<lparr>buckets = [[], [\<lparr>key = ''a'', val = ''1'', pointer_to_node = Some 1\<rparr>]],
      size_cache = 1, capacity = 2, hash_function = length,
      index = [\<lparr>addr = 1, data = \<lparr>key = ''a'', val = ''1'', pointer_to_node = None\<rparr>\<rparr>]\<rparr>)"
  using lru_cache_get_absent
    [of "\<lparr>buckets = [[], [\<lparr>key = ''a'', val = ''1'', pointer_to_node = Some 1\<rparr>]],
      size_cache = 1, capacity = 2, hash_function = length,
      index = [\<lparr>addr = 1, data = \<lparr>key = ''a'', val = ''1'', pointer_to_node = None\<rparr>\<rparr>]\<rparr>" "''bb''"]
  by (simp add: cache_keys_def)

text \<open>
  Claim C5. On a cache that is full (its size equals its capacity), \<open>lru_cache_put\<close> of
  a key that is not in the cache evicts exactly one entry, the least recently used one
  (the head of the order list): its key is the one written to \<open>*evicted_key\<close>, it was a
  key of the cache, and the keys afterwards are the old ones without it, plus the new
  key. The new key is the most recently used one (the last of the order list) and maps
  to the new value, and the size is again the capacity. A cache is a state that
  satisfies the invariant \<open>cache_inv\<close>.
\<close>

theorem lru_cache_put_full:
  assumes "cache_inv c" and "size_cache c = capacity c" and "k \<notin> cache_keys c"
  shows "\<exists>c'. lru_cache_put c k v = Some (True, Some (hd (lru_order c)), c') \<and>
           hd (lru_order c) \<in> cache_keys c \<and>
           cache_keys c' = insert k (cache_keys c - {hd (lru_order c)}) \<and>
           lru_order c' = tl (lru_order c) @ [k] \<and>
           cache_lookup c' k = Some v \<and>
           size_cache c' = capacity c' \<and> capacity c' = capacity c \<and> cache_inv c'"
  using assms by (rule put_full)

text \<open>An instance: the key \<open>ccc\<close> is put into the full example cache, and \<open>a\<close> is evicted.\<close>

theorem lru_cache_put_full_witness:
  "\<exists>c'. lru_cache_put example_cache ''ccc'' ''3'' = Some (True, Some ''a'', c') \<and>
      lru_order c' = [''bb'', ''ccc''] \<and> size_cache c' = 2"
proof -
  have h: "size_cache example_cache = capacity example_cache" "''ccc'' \<notin> cache_keys example_cache"
    by (simp_all add: example_cache_def cache_keys_def)
  have e: "hd (lru_order example_cache) = ''a''" "tl (lru_order example_cache) = [''bb'']"
    "capacity example_cache = 2"
    by (simp_all add: example_cache_def lru_order_def)
  from lru_cache_put_full [OF example_cache_inv h, of "''3''"] show ?thesis
    unfolding e by (elim exE conjE, intro exI conjI) simp_all
qed

text \<open>
  Claim C6. \<open>lru_cache_put\<close> of a key that the cache holds replaces the value, makes the
  key the most recently used one and evicts nothing (lemma \<open>put_existing\<close>), but it
  returns \<open>true\<close>, where the header lru\_cache.h and the claim say \<open>false\<close>. Here the key
  \<open>a\<close> of the example cache is put again.
\<close>

theorem lru_cache_put_existing_returns_true:
  "\<exists>c'. lru_cache_put example_cache ''a'' ''9'' = Some (True, None, c') \<and>
      lru_order c' = [''bb'', ''a''] \<and> cache_lookup c' ''a'' = Some ''9''"
  by (simp add: example_cache_def lru_cache_put_def deref_def dll_remove_node_def
      dll_add_nth_node_def malloc_node_def Let_def lru_order_def cache_lookup_def)

text \<open>
  Claim C7. The invariant does not hold for every positive capacity. \<open>lru_cache_put\<close>
  keeps the index of the chain in an \<open>int\<close>, where \<open>lru_cache_get\<close> and \<open>lru_cache_remove\<close> use
  an \<open>unsigned int\<close>: in a cache of 4000000000 chains a key whose hash is 3000000000
  belongs to chain 3000000000, which as an \<open>int\<close> is negative, so that the very first
  \<open>put\<close> reads outside the array of chains and the sequence of operations has no state
  after it. \<open>lru_cache_get\<close> of the same key in the same cache finds the chain and reports
  a miss. For capacities up to \<open>2^31\<close> the invariant holds after every operation (lemma
  \<open>cache_invariant_bounded\<close>).
\<close>

theorem lru_cache_put_large_capacity:
  "run_ops (init_lru_cache big_hash 4000000000) [Put ''k'' ''v''] = None \<and>
   lru_cache_get (init_lru_cache big_hash 4000000000) ''k'' =
     Some (None, init_lru_cache big_hash 4000000000)"
  by (simp add: init_lru_cache_def lru_cache_put_def lru_cache_get_def big_hash_def Let_def)

section \<open>Properties of the server\<close>














lemma kept_weaken: "kept c name v t \<Longrightarrow> t' \<le> t \<Longrightarrow> kept c name v t'"
  unfolding kept_def by force











lemma handle_edit_full:
  assumes "max_size (task_queue s) = 1000" and "size_q (task_queue s) = 1000"
    and "req_type req = EDIT_DOCUMENT"
  shows "server_handle_request K sid s req =
     Some ([], create_response (snprintf 1000 (LOG_LAZY_EXEC K 1000))
                 (Some (snprintf 4096 (MSG_A K ''EDIT'' (doc_name req)))) sid, s)"
  using assms by (simp add: server_handle_request_def q_enqueue_def q_get_size_def)




subsection \<open>A document that the database evicts\<close>










lemma concat_replicate_nil: "concat (replicate n []) = []"
  by (induction n) simp_all

lemma concat_update_replicate: "i < n \<Longrightarrow> concat ((replicate n [])[i := ch]) = ch"
  by (simp add: upd_conv_take_nth_drop take_replicate drop_replicate concat_replicate_nil)









section \<open>The claims about the server\<close>




text \<open>
  Claim C9. An edit that arrives when the queue of the server holds 1000 requests (all
  its slots) is dropped: the call returns a response as for any edit, with the depth
  1000 in the log, and the server, with its queue, is exactly as before. The edit is in
  no slot of the queue, so no later execution of the queue applies it.
\<close>

theorem server_handle_request_full_queue:
  assumes "max_size (task_queue s) = 1000" and "size_q (task_queue s) = 1000"
    and "req_type req = EDIT_DOCUMENT"
  shows "server_handle_request K sid s req =
     Some ([], create_response (snprintf 1000 (LOG_LAZY_EXEC K 1000))
                 (Some (snprintf 4096 (MSG_A K ''EDIT'' (doc_name req)))) sid, s)"
  using assms by (rule handle_edit_full)

text \<open>An instance: one more edit for the server whose queue is full.\<close>

theorem server_handle_request_full_queue_witness:
  "server_handle_request spec_templates 7 full_server
       \<lparr>req_type = EDIT_DOCUMENT, doc_name = ''doc2'', doc_content = ''x''\<rparr> =
     Some ([], create_response (snprintf 1000 (LOG_LAZY_EXEC spec_templates 1000))
                 (Some (snprintf 4096 (MSG_A spec_templates ''EDIT'' ''doc2''))) 7, full_server)"
  using server_handle_request_full_queue [of full_server
      "\<lparr>req_type = EDIT_DOCUMENT, doc_name = ''doc2'', doc_content = ''x''\<rparr>" spec_templates 7]
  by (simp add: full_server_def)

section \<open>Runs of the load balancer, evaluated\<close>

text \<open>The definitions that the evaluation of a run unfolds.\<close>

lemmas model_defs =
  run.simps step.simps loader_add_server_def loader_forward_request_def find_target_def
  init_load_balancer_def new_server_def init_server_def init_lru_cache_def q_create_def
  array_write_def server_at_def server_ptr_def load_def handle_at_def resolve_def
  server_handle_request_def q_enqueue_def q_get_size_def u32_inc_def create_response_def
  insert_server_def get_insert_poz_def execute_edit_tasks_def get_all_keys_def
  redistribute_keys_def family_def EDIT_def GET_def Let_def
  loader_remove_server_def remove_loop.simps remove_entry_def migrate_entry_def unlink_entry_def
  copy_all_keys_def copy_key_def server_edit_document_def lru_cache_get_def lru_cache_put_def
  evict_if_full_def insert_new_def dll_add_nth_node_def dll_remove_nth_node_def malloc_node_def
  deref_def dll_remove_node_def q_dequeue_def u32_dec_def server_get_document_def
  remove_replicas_def copy_for_replica_def find_server_index_def find_next_server_def
  lru_cache_remove_def redistribute_key_def key_owner_def should_redistribute_def move_key_def
  execute_edit_tasks_for_document.simps
  sprintf_def snprintf_def strcpy_def strncpy_def spec_templates_def int_of_unsigned_def
  ring_view_def db_view_def ring_sorted_def times5_def mod3_times5_def times7_mod23_def
  concat_replicate_nil concat_update_replicate

section \<open>The claims about the load balancer\<close>

text \<open>
  Claim C1. \<open>loader_forward_request\<close> does not forward every request. It sends a document
  to the first entry of the ring only when the hash of the document is greater than the
  hash of the last entry, and otherwise looks for the first entry with a greater hash
  than the document. A document whose hash equals the hash of the last entry is in
  neither case: the loop ends without a choice and \<open>target_server\<close> is read without ever
  having been set. Here the ring holds the server 1, with the hash 5, and the document
  \<open>hello\<close> has the hash 5: no target is found and the request has no defined outcome,
  where the claim sends it to the entry at index 0. The documents \<open>hell\<close> (hash 4) and
  \<open>hello!\<close> (hash 6) are both answered by the server 1. (\<open>redistribute_keys\<close> makes the same
  choice with \<open>hash >= ...\<close> for its first case.)
\<close>

theorem loader_forward_request_equal_hash:
  "(case run spec_templates length times5 (init_load_balancer 99999 False) [ADD 1 1] of
      None \<Rightarrow> False
    | Some st \<Rightarrow>
        ring_view st = [Some (1, 5)] \<and>
        find_target length times5 st
          \<lparr>req_type = EDIT_DOCUMENT, doc_name = ''hello'', doc_content = ''v1''\<rparr> = None \<and>
        loader_forward_request spec_templates length times5 st
          \<lparr>req_type = EDIT_DOCUMENT, doc_name = ''hello'', doc_content = ''v1''\<rparr> = None \<and>
        map_option (resp_server_id \<circ> fst)
          (loader_forward_request spec_templates length times5 st
             \<lparr>req_type = EDIT_DOCUMENT, doc_name = ''hell'', doc_content = ''v1''\<rparr>) = Some 1 \<and>
        map_option (resp_server_id \<circ> fst)
          (loader_forward_request spec_templates length times5 st
             \<lparr>req_type = EDIT_DOCUMENT, doc_name = ''hello!'', doc_content = ''v1''\<rparr>) = Some 1)"
  by (simp add: model_defs)

text \<open>
  Claim C8. The ring does not stay sorted. \<open>get_insert_poz\<close> starts its search with
  \<open>prev_hash = 0\<close> and asks for \<open>prev_hash < hash\<close>: a server whose hash is 0 passes every
  entry and is put at the end of the ring. With the servers hashed by \<open>times5\<close>, adding
  the server 0 (hash 0) to the ring of the server 1 (hash 5) gives the ring 1, 0. And
  where the loop meets an entry with the hash of the new server, it puts the new server
  before the entry when the id of the entry is smaller, and after it otherwise, which
  is the descending order of ids (the test of the last entry, before the loop, does the
  opposite). With the servers hashed by \<open>mod3_times5\<close>, adding the server 4 (hash 5) to
  the sorted ring of the servers 1 (hash 5) and 2 (hash 10) gives the ring 4, 1, 2.
\<close>

theorem insert_server_unsorted:
  "map_option ring_view
     (run spec_templates length times5 (init_load_balancer 99999 False) [ADD 1 1]) =
     Some [Some (1, 5)] \<and>
   map_option ring_view
     (run spec_templates length times5 (init_load_balancer 99999 False) [ADD 1 1, ADD 0 1]) =
     Some [Some (1, 5), Some (0, 0)] \<and>
   map_option ring_sorted
     (run spec_templates length times5 (init_load_balancer 99999 False) [ADD 1 1, ADD 0 1]) =
     Some False \<and>
   map_option ring_view
     (run spec_templates length mod3_times5 (init_load_balancer 99999 False) [ADD 1 1, ADD 2 1]) =
     Some [Some (1, 5), Some (2, 10)] \<and>
   map_option ring_view
     (run spec_templates length mod3_times5 (init_load_balancer 99999 False)
        [ADD 1 1, ADD 2 1, ADD 4 1]) =
     Some [Some (4, 5), Some (1, 5), Some (2, 10)] \<and>
   map_option ring_sorted
     (run spec_templates length mod3_times5 (init_load_balancer 99999 False)
        [ADD 1 1, ADD 2 1, ADD 4 1]) =
     Some False"
  by (simp add: model_defs)

text \<open>
  Claim C3. After a server with virtual nodes is removed, a document can be in the
  databases of two families. \<open>remove_replicas\<close> copies every document of the removed
  server to the next server after each of its two replicas, and then moves every
  document to the next server after the primary: a document ends up with each of these
  neighbours, whichever of them its hash belongs to. Here the servers 1, 2 and 3 are
  added with virtual nodes and hashed by \<open>times7_mod23\<close>, and the document \<open>hello\<close> (hash 5)
  is edited: the edit waits in the queue of the server 1, whose entry with the hash 7 is
  the first after 5. When the server 1 is removed, its replica 100001 (hash 2) is
  followed by an entry of the server 2 and its replica 200001 (hash 20) by the server 3,
  and afterwards \<open>hello\<close> is in the database of the server 2 and in that of the server 3.
  (\<open>redistribute_keys\<close>, when a server is added, moves a document only if the entry that
  owns its hash is the neighbour.)
\<close>

theorem remove_replicas_duplicates:
  "map_option ring_view
     (run spec_templates length times7_mod23 (init_load_balancer 99999 True)
        [ADD 1 1, ADD 2 1, ADD 3 1, EDIT ''hello'' ''v1'']) =
     Some [Some (100001, 2), Some (200002, 4), Some (1, 7), Some (100002, 9), Some (200003, 11),
           Some (2, 14), Some (100003, 16), Some (200001, 20), Some (3, 21)] \<and>
   map_option db_view
     (run spec_templates length times7_mod23 (init_load_balancer 99999 True)
        [ADD 1 1, ADD 2 1, ADD 3 1, EDIT ''hello'' ''v1'']) =
     Some [(1, [], 1), (2, [], 0), (3, [], 0)] \<and>
   map_option ring_view
     (run spec_templates length times7_mod23 (init_load_balancer 99999 True)
        [ADD 1 1, ADD 2 1, ADD 3 1, EDIT ''hello'' ''v1'', REMOVE 1]) =
     Some [Some (200002, 4), Some (100002, 9), Some (200003, 11), Some (2, 14), Some (100003, 16),
           Some (3, 21)] \<and>
   map_option db_view
     (run spec_templates length times7_mod23 (init_load_balancer 99999 True)
        [ADD 1 1, ADD 2 1, ADD 3 1, EDIT ''hello'' ''v1'', REMOVE 1]) =
     Some [(2, [''hello''], 0), (3, [''hello''], 0)]"
  by (simp add: model_defs)

text \<open>
  Claim C4. A document of a removed server is not always retrievable. Without virtual
  nodes, the servers 1 (hash 5) and 2 (hash 10) are added and the document \<open>hello\<close> (hash
  5) is edited; it belongs to the server 2, and a GET at this point executes the edit
  and returns its content. When instead the server 2 is removed with the edit still in
  its queue, the edit is executed and the document is copied to the database of the
  server 1, the only entry left in the ring. But the hash of the document equals the
  hash of this entry, and \<open>loader_forward_request\<close> finds no target for it (the defect of
  claim C1): the GET that follows has no defined outcome.
\<close>

theorem loader_remove_server_unreachable:
  "map_option (map server_response \<circ> stdout)
     (run spec_templates length times5 (init_load_balancer 99999 False)
        [ADD 1 1, ADD 2 1, EDIT ''hello'' ''v1'', GET ''hello'']) =
     Some [Some ''EDIT hello'', Some ''new document hello'', Some ''v1''] \<and>
   map_option ring_view
     (run spec_templates length times5 (init_load_balancer 99999 False)
        [ADD 1 1, ADD 2 1, EDIT ''hello'' ''v1'', REMOVE 2]) =
     Some [Some (1, 5)] \<and>
   map_option db_view
     (run spec_templates length times5 (init_load_balancer 99999 False)
        [ADD 1 1, ADD 2 1, EDIT ''hello'' ''v1'', REMOVE 2]) =
     Some [(1, [''hello''], 0)] \<and>
   run spec_templates length times5 (init_load_balancer 99999 False)
     [ADD 1 1, ADD 2 1, EDIT ''hello'' ''v1'', REMOVE 2, GET ''hello''] = None"
  by (simp add: model_defs)

end
